theory Spec2Isabelle
  imports Main "HOL-Library.Sublist"
begin

section \<open>Python string and path primitives used by pyFileRen.py\<close>

text \<open>
  The program runs on macOS, so \<open>os.path\<close> is \<open>posixpath\<close>. Strings are character
  lists. Python's \<open>t in s\<close> on strings is the library's \<^const>\<open>sublist\<close> (a
  contiguous occurrence), \<open>s.startswith(t)\<close> is \<^const>\<open>prefix\<close>.
\<close>

text \<open>\<open>posixpath.basename(p)\<close>: \<open>i = p.rfind('/') + 1; return p[i:]\<close>.\<close>

definition basename :: "string \<Rightarrow> string" where
  "basename p = rev (takeWhile (\<lambda>c. c \<noteq> CHR ''/'') (rev p))"

text \<open>
  \<open>posixpath.join(a, b)\<close> for two arguments: an absolute \<open>b\<close> replaces \<open>a\<close>;
  otherwise \<open>b\<close> is appended, after a separator unless \<open>a\<close> is empty or already
  ends with one.
\<close>

definition join_path :: "string \<Rightarrow> string \<Rightarrow> string" where
  "join_path a b =
     (if prefix ''/'' b then b
      else if a = [] \<or> last a = CHR ''/'' then a @ b
      else a @ ''/'' @ b)"

text \<open>
  \<open>s.replace(old, new)\<close>: the occurrences of \<open>old\<close> are found from the left, without
  overlap, and each is replaced. For an empty \<open>old\<close> Python puts \<open>new\<close> before every
  character and at the end.
\<close>

function str_replace :: "string \<Rightarrow> string \<Rightarrow> string \<Rightarrow> string" where
  "str_replace [] old new = (if old = [] then new else [])"
| "str_replace (c # cs) old new =
     (if old = [] then new @ c # str_replace cs old new
      else if prefix old (c # cs) then new @ str_replace (drop (length old) (c # cs)) old new
      else c # str_replace cs old new)"
  by pat_completeness auto
termination
  by (relation "measure (\<lambda>(s, old, new). length s)") auto

text \<open>\<open>s.split(d)\<close> with a one-character separator: never an empty list.\<close>

fun split_chr :: "char \<Rightarrow> string \<Rightarrow> string list" where
  "split_chr d [] = [[]]"
| "split_chr d (c # cs) =
     (if c = d then [] # split_chr d cs
      else (case split_chr d cs of
              w # ws \<Rightarrow> (c # w) # ws
            | [] \<Rightarrow> [[c]]))"

text \<open>\<open>str(n)\<close> for a non-negative integer.\<close>

definition digit_chr :: "nat \<Rightarrow> char" where
  "digit_chr d = ''0123456789'' ! (d mod 10)"

fun str_nat :: "nat \<Rightarrow> string" where
  "str_nat n = (if n < 10 then [digit_chr n] else str_nat (n div 10) @ [digit_chr (n mod 10)])"

declare str_nat.simps [simp del]

text \<open>
  \<open>s.zfill(width)\<close>: zeros are put on the left, after a leading sign, until the
  string has \<open>width\<close> characters.
\<close>

definition zfill :: "string \<Rightarrow> nat \<Rightarrow> string" where
  "zfill s width =
     (if width \<le> length s then s
      else if s \<noteq> [] \<and> (hd s = CHR ''+'' \<or> hd s = CHR ''-'')
        then hd s # replicate (width - length s) CHR ''0'' @ tl s
      else replicate (width - length s) CHR ''0'' @ s)"

subsection \<open>\<open>get_time_stamp\<close>\<close>

text \<open>
  \<open>datetime.now()\<close> is an input of the model: a record of the six fields that
  \<open>get_time_stamp\<close> reads. The program only calls it with \<open>flag_ms = False\<close>.
  \<open>'%.4i' % n\<close> prints \<open>n\<close> with at least four digits.
\<close>

record datetime =
  year :: nat
  month :: nat
  day :: nat
  hour :: nat
  minute :: nat
  second :: nat

definition fmt_i :: "nat \<Rightarrow> nat \<Rightarrow> string" where
  "fmt_i prec n = replicate (prec - length (str_nat n)) CHR ''0'' @ str_nat n"

definition get_time_stamp :: "datetime \<Rightarrow> string" where
  "get_time_stamp ts =
     fmt_i 4 (year ts) @ ''_'' @ fmt_i 2 (month ts) @ ''_'' @ fmt_i 2 (day ts) @ ''_'' @
     fmt_i 2 (hour ts) @ ''_'' @ fmt_i 2 (minute ts) @ ''_'' @ fmt_i 2 (second ts)"

section \<open>The rename plan: second half of \<open>FileRenamerFrame.updateFileList\<close>\<close>

text \<open>
  \<open>self.newFFO\<close>, the list of recognised keys, in the order the inner loop visits them.
\<close>

datatype ffo = OFileN | FolderN | IncNum | IncNumInFolder | Ts

fun key :: "ffo \<Rightarrow> string" where
  "key OFileN = ''oFileN''"
| "key FolderN = ''folderN''"
| "key IncNum = ''incNum''"
| "key IncNumInFolder = ''incNumInFolder''"
| "key Ts = ''ts''"

definition newFFO :: "ffo list" where
  "newFFO = [OFileN, FolderN, IncNum, IncNumInFolder, Ts]"

text \<open>\<open>tStr = "[%s]"%(k)\<close>\<close>

definition tStr :: "ffo \<Rightarrow> string" where
  "tStr k = ''['' @ key k @ '']''"

text \<open>
  The replacement for \<open>[folderN]\<close>: \<open>folderPath.split("/")\<close>, the empty strings
  removed, then the last element, or the empty string when nothing is left.
\<close>

definition folderN :: "string \<Rightarrow> string" where
  "folderN folderPath =
     (let fp = filter (\<lambda>w. w \<noteq> []) (split_chr CHR ''/'' folderPath)
      in if length fp > 0 then last fp else [])"

text \<open>
  Lines 911 and 912: \<open>fn = bn.split('.')\<close>, then \<open>oFN, oFExt = fn[0], fn[-1]\<close>.
  The list that \<open>split\<close> returns is never empty, so both reads succeed.
\<close>

definition oFN :: "string \<Rightarrow> string" where
  "oFN bn = hd (split_chr CHR ''.'' bn)"

definition oFExt :: "string \<Rightarrow> string" where
  "oFExt bn = last (split_chr CHR ''.'' bn)"

text \<open>
  One round of the loop \<open>for k in self.newFFO\<close> (lines 914 to 937), on the pair of
  the name under construction \<open>newFN\<close> and the counter \<open>incN\<close>. The test
  \<open>tStr in newFN\<close> reads the name as the earlier rounds have left it. There is one
  counter: both \<open>incNum\<close> and \<open>incNumInFolder\<close> print it and add one to it, and a
  round for \<open>incNumInFolder\<close> first puts it back to 1 when the folder has changed.
\<close>

definition substitute ::
  "string \<Rightarrow> string \<Rightarrow> string \<Rightarrow> nat \<Rightarrow> datetime \<Rightarrow> ffo \<Rightarrow> string \<times> nat \<Rightarrow> string \<times> nat" where
  "substitute oFileN folderPath prevFolderP zeroPadN now k st =
     (let newFN = fst st; incN = snd st in
      if \<not> sublist (tStr k) newFN then st
      else
        let incN1 = (if k = IncNumInFolder \<and> folderPath \<noteq> prevFolderP then 1 else incN);
            rStr = (case k of
                      OFileN \<Rightarrow> oFileN
                    | FolderN \<Rightarrow> folderN folderPath
                    | IncNum \<Rightarrow> zfill (str_nat incN1) zeroPadN
                    | IncNumInFolder \<Rightarrow> zfill (str_nat incN1) zeroPadN
                    | Ts \<Rightarrow> get_time_stamp now);
            incN2 = (if prefix ''incNum'' (key k) then incN1 + 1 else incN1)
        in (str_replace newFN (tStr k) rStr, incN2))"

text \<open>
  The variables that live across the rounds of the loop over \<open>self.fileList\<close>.
\<close>

record plan_state =
  nFileList :: "string list"
  incN :: nat
  prevFolderP :: string

text \<open>
  The body of \<open>for i, fp in enumerate(self.fileList)\<close> (lines 900 to 952) without
  the writes to the text control. \<open>clock i\<close> is what \<open>datetime.now()\<close> returns
  while entry \<open>i\<close> is processed.
\<close>

definition planEntry ::
  "string \<Rightarrow> string \<Rightarrow> nat \<Rightarrow> (nat \<Rightarrow> datetime) \<Rightarrow> nat \<Rightarrow> string \<Rightarrow> plan_state \<Rightarrow> plan_state" where
  "planEntry newForm folder2moveRenFile zeroPadN clock i fp s =
     (let bn = basename fp;
          folderPath = str_replace fp bn [];
          prevF = (if i = 0 then folderPath else prevFolderP s);
          r = fold (substitute (oFN bn) folderPath prevF zeroPadN (clock i)) newFFO
                (newForm, incN s);
          newFN = fst r;
          newFP = (if folder2moveRenFile \<noteq> []
                   then join_path folder2moveRenFile (newFN @ ''.'' @ oFExt bn)
                   else join_path folderPath (newFN @ ''.'' @ oFExt bn))
      in \<lparr>nFileList = nFileList s @ [newFP], incN = snd r, prevFolderP = folderPath\<rparr>)"

fun planLoop ::
  "string \<Rightarrow> string \<Rightarrow> nat \<Rightarrow> (nat \<Rightarrow> datetime) \<Rightarrow> nat \<Rightarrow> string list \<Rightarrow> plan_state \<Rightarrow> plan_state" where
  "planLoop newForm f2m zeroPadN clock i [] s = s"
| "planLoop newForm f2m zeroPadN clock i (fp # fps) s =
     planLoop newForm f2m zeroPadN clock (Suc i) fps (planEntry newForm f2m zeroPadN clock i fp s)"

text \<open>
  Lines 890 to 899: the new list starts empty, the counter at 1, and the pad width
  is \<open>len(str(len(self.fileList)))\<close>.
\<close>

definition renamePlan :: "string \<Rightarrow> string \<Rightarrow> (nat \<Rightarrow> datetime) \<Rightarrow> string list \<Rightarrow> plan_state" where
  "renamePlan newForm folder2moveRenFile clock fileList =
     planLoop newForm folder2moveRenFile (length (str_nat (length fileList))) clock 0 fileList
       \<lparr>nFileList = [], incN = 1, prevFolderP = []\<rparr>"

text \<open>
  The name of an entry after the first two rounds of the inner loop, those for
  \<open>oFileN\<close> and \<open>folderN\<close>: the template with \<open>[oFileN]\<close> replaced by the
  original file name and then \<open>[folderN]\<close> by the folder name.
\<close>

definition namesExpanded :: "string \<Rightarrow> string \<Rightarrow> string" where
  "namesExpanded newForm fp =
     str_replace (str_replace newForm ''[oFileN]'' (oFN (basename fp)))
       ''[folderN]'' (folderN (str_replace fp (basename fp) []))"

subsection \<open>The two counters as the specification describes them\<close>

text \<open>
  The specification speaks of a counter over the whole batch, 1, 2, 3 and so on in
  plan order, and of a counter per folder that goes back to 1 when the folder of an
  entry differs from that of the entry before. \<open>perFolderCounter prev c fs\<close> lists
  the values of the second for the folders \<open>fs\<close>, when the folder before was
  \<open>prev\<close> and the next value in that folder would be \<open>c\<close>. \<open>numbered\<close> is the
  planned path of a file whose new name is the number \<open>v\<close>, padded. They are used
  to say what the program does with either token alone.
\<close>

fun perFolderCounter :: "string \<Rightarrow> nat \<Rightarrow> string list \<Rightarrow> nat list" where
  "perFolderCounter prev c [] = []"
| "perFolderCounter prev c (f # fs) =
     (let v = (if f \<noteq> prev then 1 else c) in v # perFolderCounter f (Suc v) fs)"

definition folderPathOf :: "string \<Rightarrow> string" where
  "folderPathOf fp = str_replace fp (basename fp) []"

definition destFolder :: "string \<Rightarrow> string \<Rightarrow> string" where
  "destFolder folder2moveRenFile fp =
     (if folder2moveRenFile \<noteq> [] then folder2moveRenFile else folderPathOf fp)"

definition numbered :: "string \<Rightarrow> nat \<Rightarrow> nat \<Rightarrow> string \<Rightarrow> string" where
  "numbered folder2moveRenFile zeroPadN v fp =
     join_path (destFolder folder2moveRenFile fp)
       (zfill (str_nat v) zeroPadN @ ''.'' @ oFExt (basename fp))"

subsection \<open>The extension as the specification describes it\<close>

text \<open>
  The extension of a path in the usual sense, which is also that of the label beside
  the template field (lines 571 and 572, ``It will be same as original file
  extension''): the text after the last dot of the base name, and nothing when the
  base name has no dot. It is not taken from \<open>updateFileList\<close>, whose own reading is
  \<^const>\<open>oFExt\<close>; the two are compared below.
\<close>

definition extension :: "string \<Rightarrow> string" where
  "extension p =
     (let bn = basename p
      in if CHR ''.'' \<in> set bn then rev (takeWhile (\<lambda>c. c \<noteq> CHR ''.'') (rev bn)) else [])"

section \<open>The file system and \<open>glob\<close>\<close>

text \<open>
  What the program asks of the file system is which entries a directory lists, in
  which order, and whether a path names a directory. A tree carries exactly that: a
  directory is the list of its entries in listing order. There are no symbolic links,
  and every path is resolved from the root (the working directory is \<open>/\<close>); the
  components \<open>.\<close> and \<open>..\<close> get no special reading. The functions of \<open>glob\<close>
  are written after \<open>glob.py\<close> of Python 3.7, the release the program was written
  for.
\<close>

datatype fsnode = File | Dir "(string \<times> fsnode) list"

fun lookup :: "fsnode \<Rightarrow> string list \<Rightarrow> fsnode option" where
  "lookup nd [] = Some nd"
| "lookup File (c # cs) = None"
| "lookup (Dir es) (c # cs) = (case map_of es c of None \<Rightarrow> None | Some nd \<Rightarrow> lookup nd cs)"

definition resolve :: "fsnode \<Rightarrow> string \<Rightarrow> fsnode option" where
  "resolve root p =
     (if p = [] then None
      else lookup root (filter (\<lambda>w. w \<noteq> []) (split_chr CHR ''/'' p)))"

definition lexists :: "fsnode \<Rightarrow> string \<Rightarrow> bool" where
  "lexists root p = (resolve root p \<noteq> None)"

definition isdir :: "fsnode \<Rightarrow> string \<Rightarrow> bool" where
  "isdir root p = (case resolve root p of Some (Dir es) \<Rightarrow> True | _ \<Rightarrow> False)"

text \<open>
  \<open>glob._iterdir(dirname, dironly)\<close>: the names that \<open>os.scandir\<close> yields, only the
  directories among them when \<open>dironly\<close> is set; an empty \<open>dirname\<close> stands for the
  current directory, and a directory that cannot be read yields nothing.
\<close>

definition iterdir :: "fsnode \<Rightarrow> string \<Rightarrow> bool \<Rightarrow> string list" where
  "iterdir root dname dironly =
     (case (if dname = [] then Some root else resolve root dname) of
        Some (Dir es) \<Rightarrow> map fst (filter (\<lambda>e. \<not> dironly \<or> snd e \<noteq> File) es)
      | _ \<Rightarrow> [])"

text \<open>\<open>glob.has_magic\<close>: the pattern contains one of \<open>*\<close>, \<open>?\<close>, \<open>[\<close>.\<close>

definition has_magic :: "string \<Rightarrow> bool" where
  "has_magic s = (\<exists>c \<in> set s. c \<in> set ''*?['')"

text \<open>\<open>glob._ishidden\<close>: the first character is a dot.\<close>

definition ishidden :: "string \<Rightarrow> bool" where
  "ishidden p = prefix ''.'' p"

text \<open>
  \<open>posixpath.split(p)\<close>: with \<open>i = p.rfind('/') + 1\<close>, the head is \<open>p[:i]\<close>
  (\<open>folderPart\<close>: the path up to and including its last slash) and the tail is
  \<open>p[i:]\<close>, the base name; the slashes at the end of the head are cut off unless the
  head consists of slashes only. \<open>posixpath.dirname(p)\<close> is the head.
\<close>

definition folderPart :: "string \<Rightarrow> string" where
  "folderPart p = rev (dropWhile (\<lambda>c. c \<noteq> CHR ''/'') (rev p))"

definition split_path :: "string \<Rightarrow> string \<times> string" where
  "split_path p =
     (let head = folderPart p;
          tail = basename p
      in (if head \<noteq> [] \<and> head \<noteq> replicate (length head) CHR ''/''
          then rev (dropWhile (\<lambda>c. c = CHR ''/'') (rev head)) else head,
          tail))"

definition dirname :: "string \<Rightarrow> string" where
  "dirname p = fst (split_path p)"

text \<open>
  \<open>fnmatch\<close> decides whether a name matches a pattern. The functions below take the
  matcher as the parameter \<open>fnm\<close>, name first. The matcher \<open>fnmatch\<close> defined here
  reads \<open>*\<close> as any run of characters and \<open>?\<close> as any one character; it does not
  read character classes in brackets.
\<close>

fun fnmatch :: "string \<Rightarrow> string \<Rightarrow> bool" where
  "fnmatch [] [] = True"
| "fnmatch (c # cs) [] = False"
| "fnmatch [] (p # ps) = (p = CHR ''*'' \<and> fnmatch [] ps)"
| "fnmatch (c # cs) (p # ps) =
     (if p = CHR ''*'' then fnmatch (c # cs) ps \<or> fnmatch cs (p # ps)
      else if p = CHR ''?'' then fnmatch cs ps
      else c = p \<and> fnmatch cs ps)"

text \<open>
  \<open>glob._glob1\<close>: the listing, without the hidden names unless the pattern itself is
  hidden, filtered by the matcher.
\<close>

definition glob1 :: "(string \<Rightarrow> string \<Rightarrow> bool) \<Rightarrow> fsnode \<Rightarrow> string \<Rightarrow> string \<Rightarrow> bool \<Rightarrow> string list" where
  "glob1 fnm root dname pattern dironly =
     (let names = iterdir root dname dironly;
          names = (if \<not> ishidden pattern then filter (\<lambda>x. \<not> ishidden x) names else names)
      in filter (\<lambda>x. fnm x pattern) names)"

text \<open>\<open>glob._glob0\<close>: a literal last component, which may be empty.\<close>

definition glob0 :: "fsnode \<Rightarrow> string \<Rightarrow> string \<Rightarrow> string list" where
  "glob0 root dname bname =
     (if bname = [] then (if isdir root dname then [bname] else [])
      else (if lexists root (join_path dname bname) then [bname] else []))"

text \<open>
  \<open>glob._iglob(pathname, recursive=False, dironly)\<close>. A directory part with
  wildcards is expanded first, by the same function.
\<close>

function iglob :: "(string \<Rightarrow> string \<Rightarrow> bool) \<Rightarrow> fsnode \<Rightarrow> string \<Rightarrow> bool \<Rightarrow> string list" where
  "iglob fnm root pathname dironly =
     (if \<not> has_magic pathname then
        (if snd (split_path pathname) \<noteq> []
         then (if lexists root pathname then [pathname] else [])
         else (if isdir root (fst (split_path pathname)) then [pathname] else []))
      else if fst (split_path pathname) = [] then
        glob1 fnm root (fst (split_path pathname)) (snd (split_path pathname)) dironly
      else
        concat (map (\<lambda>d. map (join_path d)
                            (if has_magic (snd (split_path pathname))
                             then glob1 fnm root d (snd (split_path pathname)) dironly
                             else glob0 root d (snd (split_path pathname))))
                    (if fst (split_path pathname) \<noteq> pathname \<and> has_magic (fst (split_path pathname))
                     then iglob fnm root (fst (split_path pathname)) True
                     else [fst (split_path pathname)])))"
  by pat_completeness auto

termination
proof (relation "measure (\<lambda>(fnm, root, pathname, dironly). length pathname)")
  show "wf (measure (\<lambda>(fnm, root, pathname, dironly). length pathname))"
    by simp
next
  fix fnm :: "string \<Rightarrow> string \<Rightarrow> bool" and root :: fsnode and pathname :: string
    and dironly :: bool
  assume "fst (split_path pathname) \<noteq> pathname \<and> has_magic (fst (split_path pathname))"
  then have ne: "fst (split_path pathname) \<noteq> pathname"
    by simp
  have cut: "prefix (rev (dropWhile P (rev xs))) xs" for P and xs :: string
    by (metis prefix_def rev_append rev_rev_ident takeWhile_dropWhile_id)
  have "prefix (rev (dropWhile (\<lambda>c. c \<noteq> CHR ''/'') (rev pathname))) pathname"
    by (rule cut)
  moreover have
    "prefix (rev (dropWhile (\<lambda>c. c = CHR ''/'')
                   (rev (rev (dropWhile (\<lambda>c. c \<noteq> CHR ''/'') (rev pathname))))))
            (rev (dropWhile (\<lambda>c. c \<noteq> CHR ''/'') (rev pathname)))"
    by (rule cut)
  ultimately have "prefix (fst (split_path pathname)) pathname"
    unfolding split_path_def folderPart_def Let_def by (auto intro: prefix_order.trans)
  with ne have "length (fst (split_path pathname)) < length pathname"
    by (metis prefix_length_less strict_prefix_def)
  then show "((fnm, root, fst (split_path pathname), True), (fnm, root, pathname, dironly))
      \<in> measure (\<lambda>(fnm, root, pathname, dironly). length pathname)"
    by simp
qed

declare iglob.simps [simp del]

definition glob :: "(string \<Rightarrow> string \<Rightarrow> bool) \<Rightarrow> fsnode \<Rightarrow> string \<Rightarrow> string list" where
  "glob fnm root pathname = iglob fnm root pathname False"


text \<open>
  The names of a file system are not empty and contain no slash. The properties
  below that speak of the base name of a listed path assume this of the tree.
\<close>

fun wf_fs :: "fsnode \<Rightarrow> bool" where
  "wf_fs File = True"
| "wf_fs (Dir es) = (\<forall>e \<in> set es. fst e \<noteq> [] \<and> CHR ''/'' \<notin> set (fst e) \<and> wf_fs (snd e))"

section \<open>The folder collector\<close>

text \<open>
  Lines 722 to 728 of \<open>onButtonPressDown\<close>: what stands before the first slash of a
  path that the folder dialog returned is cut off (\<open>fp[fp.index("/"):]\<close>); a path
  without a slash is kept.
\<close>

definition stripDiskName :: "string \<Rightarrow> string" where
  "stripDiskName fp =
     (if CHR ''/'' \<in> set fp then dropWhile (\<lambda>c. c \<noteq> CHR ''/'') fp else fp)"

text \<open>
  \<open>addFolders(dp)\<close>, lines 860 to 864, returning what it appends to
  \<open>self.selectedFolders\<close>. The first argument bounds the depth of the recursion, as
  the interpreter's recursion limit does; \<open>None\<close> is the \<open>RecursionError\<close>.
\<close>

fun addFolders ::
  "nat \<Rightarrow> (string \<Rightarrow> string \<Rightarrow> bool) \<Rightarrow> fsnode \<Rightarrow> string \<Rightarrow> string list option" where
  "addFolders 0 fnm root dp = None"
| "addFolders (Suc depth) fnm root dp =
     map_option concat
       (those (map (\<lambda>fp. if isdir root fp
                         then map_option ((#) fp) (addFolders depth fnm root fp)
                         else Some [])
                   (glob fnm root (join_path dp ''*''))))"

text \<open>
  Lines 720 to 739: the paths of the dialog, stripped; when the check box
  \<open>subFolders_chk\<close> is set, every stripped path is followed by the folders that
  \<open>addFolders\<close> finds below it. The result is the new \<open>self.selectedFolders\<close>.
\<close>

definition selectFolders ::
  "nat \<Rightarrow> (string \<Rightarrow> string \<Rightarrow> bool) \<Rightarrow> fsnode \<Rightarrow> string list \<Rightarrow> bool \<Rightarrow> string list option" where
  "selectFolders depth fnm root paths sfChk =
     (let selectedFolders = map stripDiskName paths in
      if sfChk
      then map_option concat
             (those (map (\<lambda>dp. map_option ((#) dp) (addFolders depth fnm root dp))
                         selectedFolders))
      else Some selectedFolders)"

subsection \<open>The sub-folders as a walk over the tree\<close>

text \<open>
  The specification describes the folder collector as a pre-order walk over the
  sub-folders, in listing order, directories only. \<open>subfolders\<close> is that walk, written
  on the directory node itself, for comparison with \<open>addFolders\<close>, which goes through
  \<open>glob\<close> and path strings. Hidden entries and entries that the matcher does not
  accept for \<open>*\<close> are left out, as \<open>glob\<close> leaves them out.
\<close>

fun is_Dir :: "fsnode \<Rightarrow> bool" where
  "is_Dir File = False"
| "is_Dir (Dir es) = True"

fun subfolders :: "(string \<Rightarrow> string \<Rightarrow> bool) \<Rightarrow> string \<Rightarrow> fsnode \<Rightarrow> string list" where
  "subfolders fnm d File = []"
| "subfolders fnm d (Dir es) =
     concat (map (\<lambda>e. if \<not> ishidden (fst e) \<and> fnm (fst e) ''*'' \<and> is_Dir (snd e)
                       then join_path d (fst e) # subfolders fnm (join_path d (fst e)) (snd e)
                       else [])
                 es)"

text \<open>
  The two agree in a file system whose names are plain: not empty, without a slash
  and without the characters that \<open>glob\<close> reads as wildcards, and different from each
  other within a directory. (A folder that is named \<open>*\<close> makes \<open>glob\<close> list its
  siblings' entries as its own.)
\<close>

fun wf_plain :: "fsnode \<Rightarrow> bool" where
  "wf_plain File = True"
| "wf_plain (Dir es) =
     (distinct (map fst es) \<and>
      (\<forall>e \<in> set es. fst e \<noteq> [] \<and> CHR ''/'' \<notin> set (fst e) \<and> \<not> has_magic (fst e)
                     \<and> wf_plain (snd e)))"

text \<open>
  The components of a path; the directory that \<open>glob\<close> lists for \<open>dp/*\<close> (the head
  of the pattern, that is \<open>dp\<close> without the slashes at its end); a directory path
  with the separator that \<open>join\<close> puts after it; and the depth of a tree, to say
  which recursion depth is enough.
\<close>

definition components :: "string \<Rightarrow> string list" where
  "components p = filter (\<lambda>w. w \<noteq> []) (split_chr CHR ''/'' p)"

definition listedDir :: "string \<Rightarrow> string" where
  "listedDir dp = fst (split_path (join_path dp ''*''))"

definition dirPrefix :: "string \<Rightarrow> string" where
  "dirPrefix d = (if d = [] \<or> last d = CHR ''/'' then d else d @ ''/'')"

fun dheight :: "fsnode \<Rightarrow> nat" where
  "dheight File = 0"
| "dheight (Dir es) = Suc (foldr (\<lambda>e m. max (dheight (snd e)) m) es 0)"

text \<open>
  Picked folders that lie apart: none of them is another one of them or a folder
  below another one of them, the paths being compared component by component.
\<close>

fun rootsApart :: "string list \<Rightarrow> bool" where
  "rootsApart [] = True"
| "rootsApart (r # rs) =
     ((\<forall>q \<in> set rs. \<not> prefix (components r) (components q)
                     \<and> \<not> prefix (components q) (components r))
      \<and> rootsApart rs)"

section \<open>The file matcher: first half of \<open>updateFileList\<close>\<close>

text \<open>Lines 884 to 887: \<open>fL += glob(path.join(dp, fileForm))\<close> for every selected folder.\<close>

definition fileMatch ::
  "(string \<Rightarrow> string \<Rightarrow> bool) \<Rightarrow> fsnode \<Rightarrow> string list \<Rightarrow> string \<Rightarrow> string list" where
  "fileMatch fnm root selectedFolders fileForm =
     concat (map (\<lambda>dp. glob fnm root (join_path dp fileForm)) selectedFolders)"

text \<open>The whole of \<open>updateFileList\<close>: the new \<open>self.fileList\<close> and \<open>self.nFileList\<close>.\<close>

definition updateFileList ::
  "(string \<Rightarrow> string \<Rightarrow> bool) \<Rightarrow> fsnode \<Rightarrow> string list \<Rightarrow> string \<Rightarrow> string \<Rightarrow> string
     \<Rightarrow> (nat \<Rightarrow> datetime) \<Rightarrow> string list \<times> string list" where
  "updateFileList fnm root selectedFolders fileForm newForm folder2moveRenFile clock =
     (let fL = fileMatch fnm root selectedFolders fileForm
      in (fL, nFileList (renamePlan newForm folder2moveRenFile clock fL)))"

section \<open>The rename executor\<close>

text \<open>
  \<open>writeFile(file_path, txt)\<close> opens the file in mode \<open>'a'\<close>: the text is put at
  the end, and a file that does not exist is created. A file is its text, \<open>None\<close>
  when it does not exist.
\<close>

definition writeFile :: "string option \<Rightarrow> string \<Rightarrow> string option" where
  "writeFile f txt = (case f of None \<Rightarrow> Some txt | Some old \<Rightarrow> Some (old @ txt))"

definition logHeader :: string where
  "logHeader = ''Timestamp, Origianl file, Renamed file'' @ [CHR 0x0A] @
               ''----------------------------------------'' @ [CHR 0x0A]"

text \<open>Lines 304 to 307 of \<open>__init__\<close>: the header is written when there is no log file.\<close>

definition initLog :: "string option \<Rightarrow> string option" where
  "initLog logFile = (if logFile = None then writeFile logFile logHeader else logFile)"

text \<open>Line 769: \<open>"%s, %s, %s\n\n"%(get_time_stamp(), fp, newFP)\<close>.\<close>

definition logRecord :: "datetime \<Rightarrow> string \<Rightarrow> string \<Rightarrow> string" where
  "logRecord now fp newFP =
     get_time_stamp now @ '', '' @ fp @ '', '' @ newFP @ [CHR 0x0A, CHR 0x0A]"

text \<open>
  The records of a plan, in plan order, for the entries from index \<open>i\<close> on: what the
  loop has added to \<open>msg4log\<close> when it has run through.
\<close>

fun logRecords :: "(nat \<Rightarrow> datetime) \<Rightarrow> string list \<Rightarrow> nat \<Rightarrow> string list \<Rightarrow> string" where
  "logRecords clock nFL i [] = []"
| "logRecords clock nFL i (fp # fps) =
     logRecord (clock i) fp (nFL ! i) @ logRecords clock nFL (Suc i) fps"

datatype error = OSError | IndexError

text \<open>
  The loop of lines 766 to 770. \<open>os.rename\<close> is the parameter \<open>ren\<close>, on a
  file system of any type: it returns the file system after the renaming, or \<open>None\<close>
  where \<open>os.rename\<close> raises. An exception leaves the loop; the file system it leaves
  behind is part of the result. The summary for the message box is left out.
\<close>

fun renameLoop ::
  "('fs \<Rightarrow> string \<Rightarrow> string \<Rightarrow> 'fs option) \<Rightarrow> (nat \<Rightarrow> datetime) \<Rightarrow> string list \<Rightarrow> nat
     \<Rightarrow> string list \<Rightarrow> 'fs \<Rightarrow> string \<Rightarrow> (error \<times> 'fs) + ('fs \<times> string)" where
  "renameLoop ren clock nFL i [] files msg4log = Inr (files, msg4log)"
| "renameLoop ren clock nFL i (fp # fps) files msg4log =
     (if length nFL \<le> i then Inl (IndexError, files)
      else (case ren files fp (nFL ! i) of
              None \<Rightarrow> Inl (OSError, files)
            | Some files' \<Rightarrow>
                renameLoop ren clock nFL (Suc i) fps files'
                  (msg4log @ logRecord (clock i) fp (nFL ! i))))"

text \<open>
  The branch \<open>run_btn\<close> of \<open>onButtonPressDown\<close>, lines 763 to 773, on the file
  system and the log file: the log is written once, after the loop. The log file is
  kept apart from the files that are renamed.
\<close>

record 'fs world =
  files :: 'fs
  logFile :: "string option"

definition runRename ::
  "('fs \<Rightarrow> string \<Rightarrow> string \<Rightarrow> 'fs option) \<Rightarrow> (nat \<Rightarrow> datetime) \<Rightarrow> string list \<Rightarrow> string list
     \<Rightarrow> 'fs world \<Rightarrow> error option \<times> 'fs world" where
  "runRename ren clock fileList nFL w =
     (case renameLoop ren clock nFL 0 fileList (files w) [] of
        Inl (e, files') \<Rightarrow> (Some e, w\<lparr>files := files'\<rparr>)
      | Inr (files', msg4log) \<Rightarrow>
          (None, \<lparr>files = files', logFile = writeFile (logFile w) msg4log\<rparr>))"

section \<open>Example inputs\<close>

text \<open>The time of the example in the docstring of \<open>get_time_stamp\<close>, at every entry.\<close>

definition clock0 :: "nat \<Rightarrow> datetime" where
  "clock0 i = \<lparr>year = 2019, month = 9, day = 10, hour = 16, minute = 21, second = 56\<rparr>"

text \<open>
  A file system with two folders under \<open>/tmp\<close>, one of them with a hidden file, a
  hidden folder and a sub-folder.
\<close>

definition fs0 :: fsnode where
  "fs0 = Dir [(''tmp'', Dir [
            (''a'', Dir [(''x.txt'', File), (''.hid.txt'', File), (''y.txt'', File),
                         (''sub'', Dir [(''deep'', Dir [])]),
                         (''.git'', Dir [(''objects'', Dir [])])]),
            (''b'', Dir [(''z.txt'', File)]),
            (''f.dat'', File)])]"

text \<open>
  A folder with a file whose name has no dot, and a file system in which a folder is
  named \<open>*\<close>.
\<close>

definition fsReadme :: fsnode where
  "fsReadme = Dir [(''tmp'', Dir [(''a'', Dir [(''README'', File), (''notes.txt'', File)])])]"

definition fsStar :: fsnode where
  "fsStar = Dir [(''r'', Dir [(''*'', Dir []), (''a'', Dir [(''y'', Dir [])])])]"

text \<open>
  A flat file system for the executor: the list of the paths that exist. Renaming
  fails when the source does not exist.
\<close>

definition flat_rename :: "string list \<Rightarrow> string \<Rightarrow> string \<Rightarrow> string list option" where
  "flat_rename fs src dst =
     (if src \<in> set fs then Some (dst # filter (\<lambda>p. p \<noteq> src \<and> p \<noteq> dst) fs) else None)"

section \<open>Properties of the string primitives\<close>

lemma split_chr_nonempty: "split_chr d s \<noteq> []"
  by (induction s) (auto split: list.splits)

lemma hd_split_chr: "hd (split_chr d s) = takeWhile (\<lambda>c. c \<noteq> d) s"
  by (induction s) (auto split: list.splits simp: split_chr_nonempty)

lemma length_split_chr: "length (split_chr d s) = Suc (length (filter (\<lambda>c. c = d) s))"
  by (induction s) (auto split: list.splits)

lemma split_chr_no_sep: "d \<notin> set e \<Longrightarrow> split_chr d e = [e]"
  by (induction e) auto

lemma last_split_chr_suffix: "d \<notin> set e \<Longrightarrow> last (split_chr d (xs @ d # e)) = e"
proof (induction xs)
  case Nil
  then show ?case by (simp add: split_chr_nonempty split_chr_no_sep)
next
  case (Cons a xs)
  have "length (split_chr d (xs @ d # e)) \<ge> 2"
    by (simp add: length_split_chr)
  then obtain w v ws where "split_chr d (xs @ d # e) = w # v # ws"
    by (metis One_nat_def Suc_1 Suc_le_length_iff)
  with Cons show ?case by auto
qed

lemma takeWhile_until: "d \<notin> set ys \<Longrightarrow> takeWhile (\<lambda>c. c \<noteq> d) (ys @ d # zs) = ys"
  by (induction ys) auto

lemma last_split_chr: "last (split_chr d s) = rev (takeWhile (\<lambda>c. c \<noteq> d) (rev s))"
proof (cases "d \<in> set s")
  case False
  then have a: "takeWhile (\<lambda>c. c \<noteq> d) (rev s) = rev s"
    by (auto simp: takeWhile_eq_all_conv)
  have b: "split_chr d s = [s]"
    using False by (rule split_chr_no_sep)
  show ?thesis unfolding a b by simp
next
  case True
  then have "d \<in> set (rev s)" by simp
  then obtain ys zs where yz: "rev s = ys @ d # zs" "d \<notin> set ys"
    by (meson split_list_first)
  then have s: "s = rev zs @ d # rev ys"
    by (metis rev_append rev.simps(2) rev_rev_ident append_assoc append_Cons append_Nil)
  have "takeWhile (\<lambda>c. c \<noteq> d) (rev s) = ys"
    using yz by (simp add: takeWhile_until)
  moreover have "last (split_chr d s) = rev ys"
    using yz(2) unfolding s by (intro last_split_chr_suffix) simp
  ultimately show ?thesis by simp
qed

lemma set_last_split_chr: "d \<notin> set (last (split_chr d s))"
  unfolding last_split_chr
  by (metis (mono_tags, lifting) set_rev set_takeWhileD)

lemma set_last_split_chr_subset: "set (last (split_chr d s)) \<subseteq> set s"
  unfolding last_split_chr using set_takeWhileD by fastforce

lemma set_basename: "CHR ''/'' \<notin> set (basename p)"
  unfolding basename_def by (metis (mono_tags, lifting) set_rev set_takeWhileD)

lemma basename_append: "CHR ''/'' \<notin> set y \<Longrightarrow> basename (x @ y) = basename x @ y"
proof -
  assume "CHR ''/'' \<notin> set y"
  then have "takeWhile (\<lambda>c. c \<noteq> CHR ''/'') (rev y @ rev x)
      = rev y @ takeWhile (\<lambda>c. c \<noteq> CHR ''/'') (rev x)"
    by (intro takeWhile_append2) auto
  then show ?thesis by (simp add: basename_def)
qed

lemma join_path_suffix: "\<exists>z. join_path a (n @ y) = z @ y"
  unfolding join_path_def by (metis append.assoc)

lemma str_replace_absent: "\<not> sublist old s \<Longrightarrow> str_replace s old new = s"
proof (induction s old new rule: str_replace.induct)
  case (1 old new)
  then show ?case by auto
next
  case (2 c cs old new)
  from "2.prems" have ne: "old \<noteq> []" by auto
  from "2.prems" have np: "\<not> prefix old (c # cs)"
    using prefix_imp_sublist by blast
  from "2.prems" have "\<not> sublist old cs"
    by (meson sublist_Cons_right)
  with 2 ne np show ?case by simp
qed

lemma set_str_replace: "set (str_replace s old new) \<subseteq> set s \<union> set new"
proof (induction s old new rule: str_replace.induct)
  case (1 old new)
  then show ?case by auto
next
  case (2 c cs old new)
  show ?case
  proof (cases "old = []")
    case True
    with 2 show ?thesis by auto
  next
    case False
    show ?thesis
    proof (cases "prefix old (c # cs)")
      case True
      have "set (drop (length old) (c # cs)) \<subseteq> set (c # cs)"
        by (rule set_drop_subset)
      with 2(2)[OF False True] False True show ?thesis by auto
    next
      case np: False
      with 2(3)[OF False np] False show ?thesis by auto
    qed
  qed
qed

lemma str_replace_self: "bn \<noteq> [] \<Longrightarrow> str_replace bn bn [] = []"
  by (cases bn) simp_all

lemma str_replace_folder:
  assumes "\<not> sublist bn d" "CHR ''/'' \<notin> set bn" "d = [] \<or> last d = CHR ''/''"
  shows "str_replace (d @ bn) bn [] = d"
  using assms
proof (induction d)
  case Nil
  then show ?case by (simp add: str_replace_self)
next
  case (Cons x d)
  from Cons.prems(1) have ne: "bn \<noteq> []" by auto
  have np: "\<not> prefix bn (x # d @ bn)"
  proof
    assume "prefix bn (x # d @ bn)"
    then have "prefix bn ((x # d) @ bn)" by simp
    then consider "prefix bn (x # d)" | us where "bn = (x # d) @ us"
      unfolding prefix_append by blast
    then show False
    proof cases
      case 1
      with Cons.prems(1) show False using prefix_imp_sublist by blast
    next
      case 2
      from Cons.prems(3) have "last (x # d) = CHR ''/''" by simp
      then have "CHR ''/'' \<in> set (x # d)" by (metis last_in_set list.distinct(1))
      with 2 Cons.prems(2) show False by auto
    qed
  qed
  from Cons.prems(1) have nd: "\<not> sublist bn d" by (meson sublist_Cons_right)
  from Cons.prems(3) have ld: "d = [] \<or> last d = CHR ''/''" by (auto split: if_splits)
  have "str_replace (d @ bn) bn [] = d"
    using Cons.IH[OF nd Cons.prems(2) ld] .
  with ne np show ?case by simp
qed

lemma folderPart_basename: "folderPart p @ basename p = p"
  unfolding folderPart_def basename_def
  by (metis rev_append rev_rev_ident takeWhile_dropWhile_id)

lemma folderPart_last: "folderPart p = [] \<or> last (folderPart p) = CHR ''/''"
proof (cases "dropWhile (\<lambda>c. c \<noteq> CHR ''/'') (rev p)")
  case Nil
  then show ?thesis by (simp add: folderPart_def)
next
  case (Cons a as)
  then have "a = CHR ''/''"
    by (metis (mono_tags, lifting) hd_dropWhile list.sel(1) list.distinct(1))
  with Cons show ?thesis by (simp add: folderPart_def)
qed

lemma folderPart_append:
  assumes "a = [] \<or> last a = CHR ''/''" "CHR ''/'' \<notin> set b"
  shows "folderPart (a @ b) = a"
proof -
  have d1: "dropWhile (\<lambda>c. c \<noteq> CHR ''/'') (rev b @ rev a) = dropWhile (\<lambda>c. c \<noteq> CHR ''/'') (rev a)"
    using assms(2) by (intro dropWhile_append2) auto
  have d2: "dropWhile (\<lambda>c. c \<noteq> CHR ''/'') (rev a) = rev a"
  proof (cases a rule: rev_cases)
    case Nil
    then show ?thesis by simp
  next
    case (snoc ys y)
    with assms(1) show ?thesis by simp
  qed
  show ?thesis by (simp add: folderPart_def d1 d2)
qed

lemma dirname_folderPart: "folderPart p = folderPart q \<Longrightarrow> dirname p = dirname q"
  by (simp add: dirname_def split_path_def Let_def)

lemma join_path_plain:
  assumes "a = [] \<or> last a = CHR ''/''" "CHR ''/'' \<notin> set b"
  shows "join_path a b = a @ b"
proof -
  have "\<not> prefix ''/'' b"
    using assms(2) by (cases b) auto
  with assms(1) show ?thesis by (auto simp: join_path_def)
qed

lemma split_chr_pieces: "w \<in> set (split_chr d s) \<Longrightarrow> d \<notin> set w"
  by (induction s arbitrary: w) (auto split: if_splits list.splits)

lemma set_str_nat: "set (str_nat n) \<subseteq> set ''0123456789''"
proof (induction n rule: str_nat.induct)
  case (1 n)
  have d: "digit_chr k \<in> set ''0123456789''" for k
    unfolding digit_chr_def by (rule nth_mem) simp
  show ?case
  proof (cases "n < 10")
    case True
    then show ?thesis using d[of n] by (subst str_nat.simps) simp
  next
    case False
    with 1 have "set (str_nat (n div 10)) \<subseteq> set ''0123456789''" by simp
    with False show ?thesis using d[of "n mod 10"] by (subst str_nat.simps) simp
  qed
qed

lemma set_zfill: "set (zfill s w) \<subseteq> set s \<union> {CHR ''0''}"
proof -
  have "s \<noteq> [] \<Longrightarrow> set (tl s) \<subseteq> set s" by (cases s) auto
  moreover have "s \<noteq> [] \<Longrightarrow> hd s \<in> set s" by simp
  ultimately show ?thesis unfolding zfill_def by auto
qed

lemma counter_no_slash: "CHR ''/'' \<notin> set (zfill (str_nat n) w)"
  using set_zfill[of "str_nat n" w] set_str_nat[of n] by auto

lemma fmt_i_no_slash: "CHR ''/'' \<notin> set (fmt_i p n)"
  using set_str_nat[of n] by (auto simp: fmt_i_def)

lemma get_time_stamp_no_slash: "CHR ''/'' \<notin> set (get_time_stamp t)"
  by (simp add: get_time_stamp_def fmt_i_no_slash)

lemma basename_no_slash: "CHR ''/'' \<notin> set x \<Longrightarrow> basename x = x"
  using basename_append[of x "[]"] by (simp add: basename_def)

lemma basename_after_slash:
  assumes "a = [] \<or> last a = CHR ''/''"
  shows "basename (a @ b) = basename b"
proof (cases a rule: rev_cases)
  case Nil
  then show ?thesis by simp
next
  case (snoc ys y)
  with assms have y: "y = CHR ''/''" by simp
  show ?thesis
  proof (cases "CHR ''/'' \<in> set b")
    case True
    then have "\<exists>c \<in> set (rev b). \<not> c \<noteq> CHR ''/''" by simp
    then have "takeWhile (\<lambda>c. c \<noteq> CHR ''/'') (rev b @ rev a) = takeWhile (\<lambda>c. c \<noteq> CHR ''/'') (rev b)"
      by (metis (mono_tags, lifting) takeWhile_append1)
    then show ?thesis by (simp add: basename_def)
  next
    case False
    then have "basename (a @ b) = basename a @ b" by (rule basename_append)
    moreover have "basename a = []" using snoc y by (simp add: basename_def)
    moreover have "basename b = b" using False by (rule basename_no_slash)
    ultimately show ?thesis by simp
  qed
qed

lemma basename_join_path: "basename (join_path a b) = basename b"
proof -
  have "basename (a @ CHR ''/'' # b) = basename b"
    using basename_after_slash[of "a @ ''/''" b] by simp
  then show ?thesis
    by (auto simp: join_path_def basename_after_slash)
qed

lemma snd_split_path: "snd (split_path p) = basename p"
  by (simp add: split_path_def Let_def)

section \<open>The extension is carried over\<close>

lemma oFExt_join:
  assumes "CHR ''/'' \<notin> set e" "CHR ''.'' \<notin> set e"
  shows "oFExt (basename (join_path a (n @ CHR ''.'' # e))) = e"
proof -
  obtain z where z: "join_path a (n @ CHR ''.'' # e) = z @ CHR ''.'' # e"
    using join_path_suffix[of a n "CHR ''.'' # e"] by blast
  have "basename (z @ CHR ''.'' # e) = basename z @ CHR ''.'' # e"
    using assms(1) basename_append[of "CHR ''.'' # e" z] by simp
  moreover have "last (split_chr CHR ''.'' (basename z @ CHR ''.'' # e)) = e"
    using assms(2) by (rule last_split_chr_suffix)
  ultimately show ?thesis
    using z by (simp add: oFExt_def)
qed

lemma oFExt_no_slash: "CHR ''/'' \<notin> set (oFExt (basename fp))"
  using set_last_split_chr_subset[of "CHR ''.''" "basename fp"] set_basename[of fp]
  unfolding oFExt_def by blast

lemma oFExt_no_dot: "CHR ''.'' \<notin> set (oFExt bn)"
  unfolding oFExt_def by (rule set_last_split_chr)

lemma planEntry_nFileList:
  "\<exists>newFP. nFileList (planEntry newForm f2m zp clock i fp s) = nFileList s @ [newFP]
     \<and> oFExt (basename newFP) = oFExt (basename fp)"
  unfolding planEntry_def Let_def
  by (simp add: oFExt_join oFExt_no_slash oFExt_no_dot)

lemma planLoop_ext:
  "map (\<lambda>p. oFExt (basename p)) (nFileList (planLoop newForm f2m zp clock i fps s))
     = map (\<lambda>p. oFExt (basename p)) (nFileList s) @ map (\<lambda>p. oFExt (basename p)) fps"
proof (induction fps arbitrary: i s)
  case Nil
  show ?case by simp
next
  case (Cons fp fps)
  obtain newFP where n:
      "nFileList (planEntry newForm f2m zp clock i fp s) = nFileList s @ [newFP]"
      "oFExt (basename newFP) = oFExt (basename fp)"
    using planEntry_nFileList by blast
  show ?case by (simp add: Cons.IH n)
qed

text \<open>
  The planned paths carry, entry by entry, what the program reads as the extension of
  the source paths (\<^const>\<open>oFExt\<close> of \<^const>\<open>basename\<close>), for every template,
  destination override, clock and file list; in particular the plan is as long as
  the file list. The same holds of the two lists that \<open>updateFileList\<close> leaves behind.
\<close>

lemma planned_oFExt_is_source_oFExt:
  "map (\<lambda>p. oFExt (basename p)) (nFileList (renamePlan newForm folder2moveRenFile clock fileList))
     = map (\<lambda>p. oFExt (basename p)) fileList
   \<and> map (\<lambda>p. oFExt (basename p))
         (snd (updateFileList fnm root selectedFolders fileForm newForm folder2moveRenFile clock))
     = map (\<lambda>p. oFExt (basename p))
         (fst (updateFileList fnm root selectedFolders fileForm newForm folder2moveRenFile clock))"
  unfolding renamePlan_def updateFileList_def Let_def by (simp add: planLoop_ext)

subsection \<open>The extension in the usual sense\<close>

text \<open>
  What the program reads as the extension is the extension in the usual sense when
  the base name has a dot, and the whole base name when it has none.
\<close>

lemma extension_with_dot:
  "CHR ''.'' \<in> set (basename p) \<Longrightarrow> extension p = oFExt (basename p)"
  by (simp add: extension_def oFExt_def last_split_chr)

lemma extension_without_dot:
  "CHR ''.'' \<notin> set (basename p) \<Longrightarrow> extension p = [] \<and> oFExt (basename p) = basename p"
  by (simp add: extension_def oFExt_def split_chr_no_sep)

lemma basename_join_dot:
  assumes "CHR ''/'' \<notin> set e"
  shows "CHR ''.'' \<in> set (basename (join_path a (n @ CHR ''.'' # e)))"
proof -
  obtain z where z: "join_path a (n @ CHR ''.'' # e) = z @ CHR ''.'' # e"
    using join_path_suffix[of a n "CHR ''.'' # e"] by blast
  have "basename (z @ CHR ''.'' # e) = basename z @ CHR ''.'' # e"
    using assms basename_append[of "CHR ''.'' # e" z] by simp
  with z show ?thesis by simp
qed

lemma planEntry_extension:
  "\<exists>newFP. nFileList (planEntry newForm f2m zp clock i fp s) = nFileList s @ [newFP]
     \<and> extension newFP = oFExt (basename fp)"
proof -
  have "extension (join_path a (n @ CHR ''.'' # oFExt (basename fp))) = oFExt (basename fp)"
    for a n
    using extension_with_dot[OF basename_join_dot[OF oFExt_no_slash]]
    by (simp add: oFExt_join oFExt_no_slash oFExt_no_dot)
  then show ?thesis
    unfolding planEntry_def Let_def by simp
qed

lemma planLoop_extension:
  "map extension (nFileList (planLoop newForm f2m zp clock i fps s))
     = map extension (nFileList s) @ map (\<lambda>p. oFExt (basename p)) fps"
proof (induction fps arbitrary: i s)
  case Nil
  show ?case by simp
next
  case (Cons fp fps)
  obtain newFP where n:
      "nFileList (planEntry newForm f2m zp clock i fp s) = nFileList s @ [newFP]"
      "extension newFP = oFExt (basename fp)"
    using planEntry_extension by blast
  show ?case by (simp add: Cons.IH n)
qed

text \<open>
  The extension of every planned path is what the program read as the extension of
  its source. So a file list in which every base name has a dot keeps its extensions,
  whatever the template; and a source whose base name has no dot, which has no
  extension, is planned with its whole base name as the extension.
\<close>

lemma planned_extension:
  "map extension (nFileList (renamePlan newForm folder2moveRenFile clock fileList))
     = map (\<lambda>p. oFExt (basename p)) fileList"
  unfolding renamePlan_def Let_def by (simp add: planLoop_extension)

lemma extension_kept_with_dot:
  assumes "\<forall>p \<in> set fileList. CHR ''.'' \<in> set (basename p)"
  shows "map extension (nFileList (renamePlan newForm folder2moveRenFile clock fileList))
     = map extension fileList"
  using assms by (simp add: planned_extension extension_with_dot)

lemma extension_made_without_dot:
  assumes "CHR ''.'' \<notin> set (basename fp)"
  shows "map extension (nFileList (renamePlan newForm folder2moveRenFile clock [fp]))
       = [basename fp] \<and> extension fp = []"
  using assms by (simp add: planned_extension extension_without_dot)

text \<open>
  Claim C2. The label beside the template field says that the extension of the new
  name ``will be same as original file extension'', and so does the claim. But
  \<open>updateFileList\<close> takes \<open>fn[-1]\<close> of the base name split at the dots, which is the
  whole base name when there is no dot. For the folder \<open>/tmp/a\<close> holding \<open>README\<close>
  and \<open>notes.txt\<close>, the pattern \<open>*\<close> and the template \<open>[oFileN]\<close>, the file
  \<open>README\<close>, which has no extension, is planned as \<open>README.README\<close>, with the
  extension \<open>README\<close>; \<open>notes.txt\<close> keeps its extension.
\<close>

theorem extension_made_of_dotless_name:
  "updateFileList fnmatch fsReadme [''/tmp/a''] ''*'' ''[oFileN]'' [] clock0
     = ([''/tmp/a/README'', ''/tmp/a/notes.txt''],
        [''/tmp/a/README.README'', ''/tmp/a/notes.txt''])
   \<and> extension ''/tmp/a/README'' = []
   \<and> extension ''/tmp/a/README.README'' = ''README''"
  by code_simp

text \<open>
  The scenario of the specification: the folders \<open>/tmp/a\<close> and \<open>/tmp/b\<close>, the
  pattern \<open>*.*\<close> and the template \<open>[folderN]_[incNumInFolder]\<close>, on a file system
  that also holds a hidden file and sub-folders.
\<close>

lemma specification_scenario:
  "updateFileList fnmatch fs0 [''/tmp/a'', ''/tmp/b''] ''*.*'' ''[folderN]_[incNumInFolder]'' [] clock0
     = ([''/tmp/a/x.txt'', ''/tmp/a/y.txt'', ''/tmp/b/z.txt''],
        [''/tmp/a/a_1.txt'', ''/tmp/a/a_2.txt'', ''/tmp/b/b_1.txt''])"
  by code_simp

section \<open>Base name and extension of a name with several dots\<close>

text \<open>
  Claim C5. The original file name \<open>oFN\<close> is what stands before the first dot of the
  base name and the extension \<open>oFExt\<close> is what stands after the last dot, whatever
  lies between them: \<open>a.b.txt\<close> gives \<open>a\<close> and \<open>txt\<close>, and under the
  template \<open>[oFileN]\<close> the file \<open>/tmp/a.b.txt\<close> is planned as \<open>/tmp/a.txt\<close>.
\<close>

theorem multi_dot_name_split:
  "oFN bn = takeWhile (\<lambda>c. c \<noteq> CHR ''.'') bn
   \<and> oFExt bn = rev (takeWhile (\<lambda>c. c \<noteq> CHR ''.'') (rev bn))
   \<and> oFN ''a.b.txt'' = ''a'' \<and> oFExt ''a.b.txt'' = ''txt''
   \<and> nFileList (renamePlan ''[oFileN]'' [] clock [''/tmp/a.b.txt'']) = [''/tmp/a.txt'']"
proof -
  have "nFileList (renamePlan ''[oFileN]'' [] clock [''/tmp/a.b.txt'']) = [''/tmp/a.txt'']"
    by code_simp
  moreover have "oFN ''a.b.txt'' = ''a'' \<and> oFExt ''a.b.txt'' = ''txt''"
    by (simp add: oFN_def oFExt_def)
  ultimately show ?thesis
    by (simp add: oFN_def oFExt_def hd_split_chr last_split_chr)
qed

section \<open>The destination folder\<close>

lemma planned_folderPath:
  assumes "\<not> sublist (basename fp) (folderPart fp)"
  shows "str_replace fp (basename fp) [] = folderPart fp"
proof -
  have "str_replace (folderPart fp @ basename fp) (basename fp) [] = folderPart fp"
    using assms set_basename folderPart_last by (rule str_replace_folder)
  then show ?thesis by (simp add: folderPart_basename)
qed

lemma set_oFN: "set (oFN bn) \<subseteq> set bn"
  unfolding oFN_def hd_split_chr using set_takeWhileD by fastforce

lemma folderN_no_slash: "CHR ''/'' \<notin> set (folderN p)"
proof (cases "filter (\<lambda>w. w \<noteq> []) (split_chr CHR ''/'' p) = []")
  case True
  then show ?thesis by (simp add: folderN_def)
next
  case False
  then have "last (filter (\<lambda>w. w \<noteq> []) (split_chr CHR ''/'' p)) \<in> set (split_chr CHR ''/'' p)"
    by (metis (no_types, lifting) filter_is_subset last_in_set subsetD)
  then show ?thesis
    using False by (simp add: folderN_def Let_def split_chr_pieces)
qed

lemma substitute_no_slash:
  assumes "CHR ''/'' \<notin> set (fst st)" "CHR ''/'' \<notin> set oFileN"
  shows "CHR ''/'' \<notin> set (fst (substitute oFileN folderPath prevF zeroPadN now k st))"
proof (cases "sublist (tStr k) (fst st)")
  case False
  with assms show ?thesis by (simp add: substitute_def)
next
  case True
  have r: "CHR ''/'' \<notin> set new \<Longrightarrow> CHR ''/'' \<notin> set (str_replace (fst st) t new)" for new t
    using set_str_replace[of "fst st" t new] assms(1) by auto
  show ?thesis
    using True assms(2)
    by (cases k) (simp_all add: substitute_def Let_def r folderN_no_slash counter_no_slash
        get_time_stamp_no_slash)
qed

lemma fold_substitute_no_slash:
  assumes "CHR ''/'' \<notin> set (fst st)" "CHR ''/'' \<notin> set oFileN"
  shows "CHR ''/'' \<notin> set (fst (fold (substitute oFileN folderPath prevF zeroPadN now) ks st))"
  using assms(1)
proof (induction ks arbitrary: st)
  case Nil
  then show ?case by simp
next
  case (Cons k ks)
  show ?case
    using Cons.IH[OF substitute_no_slash[OF Cons.prems assms(2)]] by simp
qed

lemma planEntry_folder:
  assumes "CHR ''/'' \<notin> set newForm" "\<not> sublist (basename fp) (folderPart fp)"
  shows "\<exists>newFP. nFileList (planEntry newForm [] zp clock i fp s) = nFileList s @ [newFP]
     \<and> dirname newFP = dirname fp"
proof -
  let ?prevF = "if i = 0 then str_replace fp (basename fp) [] else prevFolderP s"
  let ?newFN = "fst (fold (substitute (oFN (basename fp)) (str_replace fp (basename fp) []) ?prevF zp (clock i)) newFFO (newForm, incN s))"
  let ?name = "?newFN @ ''.'' @ oFExt (basename fp)"
  have fp: "str_replace fp (basename fp) [] = folderPart fp"
    using assms(2) by (rule planned_folderPath)
  have "CHR ''/'' \<notin> set (oFN (basename fp))"
    using set_oFN[of "basename fp"] set_basename[of fp] by auto
  then have "CHR ''/'' \<notin> set ?newFN"
    using assms(1) by (intro fold_substitute_no_slash) simp_all
  then have nm: "CHR ''/'' \<notin> set ?name"
    using oFExt_no_slash[of fp] by simp
  have j: "join_path (folderPart fp) ?name = folderPart fp @ ?name"
    using folderPart_last nm by (rule join_path_plain)
  have "folderPart (folderPart fp @ ?name) = folderPart fp"
    using folderPart_last nm by (rule folderPart_append)
  then have "dirname (join_path (folderPart fp) ?name) = dirname fp"
    unfolding j by (intro dirname_folderPart) simp
  then show ?thesis
    unfolding planEntry_def Let_def fp by simp
qed

lemma planLoop_folder:
  assumes "CHR ''/'' \<notin> set newForm" "\<forall>fp \<in> set fps. \<not> sublist (basename fp) (folderPart fp)"
  shows "map dirname (nFileList (planLoop newForm [] zp clock i fps s))
     = map dirname (nFileList s) @ map dirname fps"
  using assms(2)
proof (induction fps arbitrary: i s)
  case Nil
  show ?case by simp
next
  case (Cons fp fps)
  then have "\<not> sublist (basename fp) (folderPart fp)" by simp
  with assms(1) obtain newFP where n:
      "nFileList (planEntry newForm [] zp clock i fp s) = nFileList s @ [newFP]"
      "dirname newFP = dirname fp"
    using planEntry_folder by blast
  from Cons.prems have "\<forall>fp \<in> set fps. \<not> sublist (basename fp) (folderPart fp)" by simp
  from Cons.IH[OF this] show ?case by (simp add: n)
qed

text \<open>
  Claim C3, as it stands, fails: the template is joined to the folder unchecked, and
  \<open>posixpath.join\<close> drops the folder when the new name starts with a slash. With no
  destination override, the template \<open>/x\<close> sends \<open>/tmp/a/f.txt\<close> to \<open>/x.txt\<close>,
  in the folder \<open>/\<close> and not in \<open>/tmp/a\<close>.
\<close>

theorem destination_folder_counterexample:
  "nFileList (renamePlan ''/x'' [] clock0 [''/tmp/a/f.txt'']) = [''/x.txt'']
   \<and> dirname ''/x.txt'' = ''/'' \<and> dirname ''/tmp/a/f.txt'' = ''/tmp/a''
   \<and> dirname ''/x.txt'' \<noteq> dirname ''/tmp/a/f.txt''"
  by code_simp

text \<open>
  Claim C3, amended. With no destination override (the empty string), a template
  without a slash, and file paths whose base name does not occur in their folder part
  (so that line 909, which removes the base name wherever it occurs, leaves the
  folder part), every planned path lies in the folder of its source path:
  \<open>dirname\<close> agrees entry by entry.
\<close>

theorem destination_folder_is_source_folder:
  assumes "CHR ''/'' \<notin> set newForm"
      and "\<forall>fp \<in> set fileList. \<not> sublist (basename fp) (folderPart fp)"
  shows "map dirname (nFileList (renamePlan newForm [] clock fileList)) = map dirname fileList"
  unfolding renamePlan_def using assms by (simp add: planLoop_folder)

theorem destination_folder_is_source_folder_witness:
  "CHR ''/'' \<notin> set ''[folderN]_[incNumInFolder]''
   \<and> \<not> sublist (basename ''/tmp/a/x.txt'') (folderPart ''/tmp/a/x.txt'')
   \<and> \<not> sublist (basename ''/tmp/b/z.txt'') (folderPart ''/tmp/b/z.txt'')
   \<and> map dirname (nFileList (renamePlan ''[folderN]_[incNumInFolder]'' [] clock0
          [''/tmp/a/x.txt'', ''/tmp/b/z.txt'']))
       = [''/tmp/a'', ''/tmp/b'']"
proof -
  have h1: "CHR ''/'' \<notin> set ''[folderN]_[incNumInFolder]''"
    by simp
  have h2: "\<forall>fp \<in> set [''/tmp/a/x.txt'', ''/tmp/b/z.txt'']. \<not> sublist (basename fp) (folderPart fp)"
    by code_simp
  have v: "map dirname [''/tmp/a/x.txt'', ''/tmp/b/z.txt''] = [''/tmp/a'', ''/tmp/b'']"
    by code_simp
  show ?thesis
    using destination_folder_is_source_folder [OF h1 h2, of clock0] h1 h2 v by simp
qed

section \<open>The counter\<close>

subsection \<open>Either token alone\<close>

lemma substitute_skip:
  "\<not> sublist (tStr k) (fst st) \<Longrightarrow> substitute oFileN folderPath prevF zeroPadN now k st = st"
  by (simp add: substitute_def)

lemma sublist_set: "sublist t s \<Longrightarrow> set t \<subseteq> set s"
  by (auto simp: sublist_def)

lemma str_replace_whole: "old \<noteq> [] \<Longrightarrow> str_replace old old new = new"
  by (cases old) simp_all

lemma number_has_no_bracket: "CHR ''['' \<notin> set (zfill (str_nat n) w)"
  using set_zfill[of "str_nat n" w] set_str_nat[of n] by auto

lemma number_has_no_token: "\<not> sublist (tStr k) (zfill (str_nat n) w)"
proof
  assume "sublist (tStr k) (zfill (str_nat n) w)"
  then have "set (tStr k) \<subseteq> set (zfill (str_nat n) w)" by (rule sublist_set)
  moreover have "CHR ''['' \<in> set (tStr k)" by (simp add: tStr_def)
  ultimately show False using number_has_no_bracket by blast
qed

lemma fold_incNum_alone:
  "fold (substitute oFileN folderPath prevF zeroPadN now) newFFO (''[incNum]'', n)
     = (zfill (str_nat n) zeroPadN, Suc n)"
proof -
  have t: "tStr IncNum = ''[incNum]''" by (simp add: tStr_def)
  have s1: "substitute oFileN folderPath prevF zeroPadN now OFileN (''[incNum]'', n) = (''[incNum]'', n)"
    by (rule substitute_skip) (simp add: tStr_def sublist_code)
  have s2: "substitute oFileN folderPath prevF zeroPadN now FolderN (''[incNum]'', n) = (''[incNum]'', n)"
    by (rule substitute_skip) (simp add: tStr_def sublist_code)
  have s3: "substitute oFileN folderPath prevF zeroPadN now IncNum (''[incNum]'', n)
      = (zfill (str_nat n) zeroPadN, Suc n)"
    by (simp add: substitute_def t)
  have s4: "substitute oFileN folderPath prevF zeroPadN now k (zfill (str_nat n) zeroPadN, Suc n)
      = (zfill (str_nat n) zeroPadN, Suc n)" for k
    by (rule substitute_skip) (simp add: number_has_no_token)
  show ?thesis by (simp add: newFFO_def s1 s2 s3 s4)
qed

lemma fold_incNumInFolder_alone:
  "fold (substitute oFileN folderPath prevF zeroPadN now) newFFO (''[incNumInFolder]'', n)
     = (zfill (str_nat (if folderPath \<noteq> prevF then 1 else n)) zeroPadN,
        Suc (if folderPath \<noteq> prevF then 1 else n))"
proof -
  let ?v = "if folderPath \<noteq> prevF then 1 else n"
  have t: "tStr IncNumInFolder = ''[incNumInFolder]''" by (simp add: tStr_def)
  have s1: "substitute oFileN folderPath prevF zeroPadN now OFileN (''[incNumInFolder]'', n)
      = (''[incNumInFolder]'', n)"
    by (rule substitute_skip) (simp add: tStr_def sublist_code)
  have s2: "substitute oFileN folderPath prevF zeroPadN now FolderN (''[incNumInFolder]'', n)
      = (''[incNumInFolder]'', n)"
    by (rule substitute_skip) (simp add: tStr_def sublist_code)
  have s3: "substitute oFileN folderPath prevF zeroPadN now IncNum (''[incNumInFolder]'', n)
      = (''[incNumInFolder]'', n)"
    by (rule substitute_skip) (simp add: tStr_def sublist_code)
  have s4: "substitute oFileN folderPath prevF zeroPadN now IncNumInFolder (''[incNumInFolder]'', n)
      = (zfill (str_nat ?v) zeroPadN, Suc ?v)"
    by (simp add: substitute_def t)
  have s5: "substitute oFileN folderPath prevF zeroPadN now Ts (zfill (str_nat ?v) zeroPadN, Suc ?v)
      = (zfill (str_nat ?v) zeroPadN, Suc ?v)"
    by (rule substitute_skip) (simp add: number_has_no_token)
  show ?thesis by (simp only: newFFO_def fold_simps s1 s2 s3 s4 s5 id_apply comp_apply)
qed

lemma planLoop_incNum_alone:
  "incN s = Suc i \<Longrightarrow>
   nFileList (planLoop ''[incNum]'' f2m zp clock i fps s)
     = nFileList s @ map2 (\<lambda>j fp. numbered f2m zp (Suc j) fp) [i ..< i + length fps] fps"
proof (induction fps arbitrary: i s)
  case Nil
  then show ?case by simp
next
  case (Cons fp fps)
  let ?s = "planEntry ''[incNum]'' f2m zp clock i fp s"
  have e: "nFileList ?s = nFileList s @ [numbered f2m zp (Suc i) fp]" "incN ?s = Suc (Suc i)"
    using Cons.prems
    by (simp_all add: planEntry_def Let_def fold_incNum_alone numbered_def destFolder_def folderPathOf_def)
  have u: "[i ..< Suc (i + length fps)] = i # [Suc i ..< Suc (i + length fps)]"
    by (subst upt_rec) simp
  show ?case
    using Cons.IH[OF e(2)] by (simp add: e(1) u del: upt_Suc)
qed

text \<open>
  With the template \<open>[incNum]\<close> the files are numbered 1, 2, 3 and so on in plan
  order, each number padded to the width of the number of files.
\<close>

lemma incNum_alone:
  "nFileList (renamePlan ''[incNum]'' f2m clock fileList)
     = map2 (\<lambda>j fp. numbered f2m (length (str_nat (length fileList))) (Suc j) fp)
         [0 ..< length fileList] fileList"
  using planLoop_incNum_alone[of "\<lparr>nFileList = [], incN = 1, prevFolderP = []\<rparr>" 0 f2m
      "length (str_nat (length fileList))" clock fileList]
  by (simp add: renamePlan_def)

text \<open>
  With the template \<open>[incNumInFolder]\<close> the files are numbered by the counter per
  folder: the first entry gets 1, an entry whose folder path differs from that of the
  entry before gets 1, every other entry one more than the entry before.
\<close>

lemma planLoop_incNumInFolder_alone:
  "nFileList (planLoop ''[incNumInFolder]'' f2m zp clock i fps s)
     = nFileList s @ map2 (\<lambda>v fp. numbered f2m zp v fp)
         (perFolderCounter (if i = 0 then folderPathOf (hd fps) else prevFolderP s) (incN s)
            (map folderPathOf fps))
         fps"
proof (induction fps arbitrary: i s)
  case Nil
  then show ?case by simp
next
  case (Cons fp fps)
  let ?s = "planEntry ''[incNumInFolder]'' f2m zp clock i fp s"
  let ?prev = "if i = 0 then folderPathOf fp else prevFolderP s"
  let ?v = "if folderPathOf fp \<noteq> ?prev then 1 else incN s"
  have e: "nFileList ?s = nFileList s @ [numbered f2m zp ?v fp]" "incN ?s = Suc ?v"
      "prevFolderP ?s = folderPathOf fp"
    by (simp_all add: planEntry_def Let_def fold_incNumInFolder_alone numbered_def destFolder_def
        folderPathOf_def)
  show ?case
    using Cons.IH[of "Suc i" ?s] by (simp add: e Let_def)
qed

lemma incNumInFolder_alone:
  "nFileList (renamePlan ''[incNumInFolder]'' f2m clock fileList)
     = map2 (\<lambda>v fp. numbered f2m (length (str_nat (length fileList))) v fp)
         (perFolderCounter (folderPathOf (hd fileList)) 1 (map folderPathOf fileList))
         fileList"
  using planLoop_incNumInFolder_alone[of f2m "length (str_nat (length fileList))" clock 0 fileList
      "\<lparr>nFileList = [], incN = 1, prevFolderP = []\<rparr>"]
  by (simp add: renamePlan_def)

subsection \<open>Both tokens in one template\<close>

text \<open>
  Claim C1. The program keeps one counter for \<open>[incNum]\<close> and \<open>[incNumInFolder]\<close>.
  With both tokens in the template, four files in two folders get the \<open>[incNum]\<close>
  values 1, 3, 5, 2 (the first number of each new name) where the claim says 1, 2, 3, 4:
  each use of \<open>[incNumInFolder]\<close> takes a number away, and the change of folder puts the
  shared counter back to 1.
\<close>

theorem incNum_shares_the_counter:
  "nFileList (renamePlan ''[incNum]_[incNumInFolder]'' [] clock0
      [''/tmp/a/x.txt'', ''/tmp/a/y.txt'', ''/tmp/b/z.txt'', ''/tmp/b/w.txt''])
   = [''/tmp/a/1_2.txt'', ''/tmp/a/3_4.txt'', ''/tmp/b/5_1.txt'', ''/tmp/b/2_3.txt'']"
  by code_simp

text \<open>
  Claim C4. For the same reason the value of \<open>[incNumInFolder]\<close> is 2 for the first
  entry and 4 for the second entry of the same folder when \<open>[incNum]\<close> stands in the
  template too (the first number of each new name below), where the claim says 1 and 2.
\<close>

theorem incNumInFolder_shares_the_counter:
  "nFileList (renamePlan ''[incNumInFolder]-[incNum]'' [] clock0
      [''/tmp/a/x.txt'', ''/tmp/a/y.txt''])
   = [''/tmp/a/2-1.txt'', ''/tmp/a/4-3.txt'']"
  by code_simp

section \<open>Tokens that are not in the name\<close>

lemma substitute_OFileN:
  "substitute oFileN folderPath prevF zeroPadN now OFileN (s, n)
     = (str_replace s ''[oFileN]'' oFileN, n)"
  by (simp add: substitute_def tStr_def str_replace_absent)

lemma substitute_FolderN:
  "substitute oFileN folderPath prevF zeroPadN now FolderN (s, n)
     = (str_replace s ''[folderN]'' (folderN folderPath), n)"
  by (simp add: substitute_def tStr_def str_replace_absent)

lemma substitute_Ts:
  "snd (substitute oFileN folderPath prevF zeroPadN now Ts st) = snd st"
  by (simp add: substitute_def Let_def)

lemma fold_newFFO_counter:
  assumes "\<not> sublist ''[incNum]'' (str_replace (str_replace newForm ''[oFileN]'' oFileN) ''[folderN]'' (folderN folderPath))"
      and "\<not> sublist ''[incNumInFolder]'' (str_replace (str_replace newForm ''[oFileN]'' oFileN) ''[folderN]'' (folderN folderPath))"
  shows "snd (fold (substitute oFileN folderPath prevF zeroPadN now) newFFO (newForm, n)) = n"
  using assms
  by (simp add: newFFO_def substitute_OFileN substitute_FolderN substitute_Ts substitute_skip tStr_def)


lemma planEntry_counter:
  assumes "\<not> sublist (tStr IncNum) (namesExpanded newForm fp)"
      and "\<not> sublist (tStr IncNumInFolder) (namesExpanded newForm fp)"
  shows "incN (planEntry newForm f2m zp clock i fp s) = incN s"
  using assms unfolding planEntry_def Let_def namesExpanded_def
  by (simp add: fold_newFFO_counter tStr_def)

lemma planLoop_counter:
  assumes "\<forall>fp \<in> set fps. \<not> sublist (tStr IncNum) (namesExpanded newForm fp)
             \<and> \<not> sublist (tStr IncNumInFolder) (namesExpanded newForm fp)"
  shows "incN (planLoop newForm f2m zp clock i fps s) = incN s"
  using assms
proof (induction fps arbitrary: i s)
  case Nil
  show ?case by simp
next
  case (Cons fp fps)
  then have "incN (planEntry newForm f2m zp clock i fp s) = incN s"
    by (simp add: planEntry_counter)
  moreover from Cons.prems have
    "\<forall>fp \<in> set fps. \<not> sublist (tStr IncNum) (namesExpanded newForm fp)
             \<and> \<not> sublist (tStr IncNumInFolder) (namesExpanded newForm fp)"
    by simp
  ultimately show ?case
    using Cons.IH by simp
qed

text \<open>
  Claim C9, as it stands, fails: the test \<open>tStr in newFN\<close> reads the name after the
  earlier substitutions, not the template. The template \<open>[oFileN]\<close> contains neither
  counter token, yet for the file \<open>[incNum].txt\<close> the round for \<open>oFileN\<close> brings
  \<open>[incNum]\<close> into the name, the round for \<open>incNum\<close> replaces it, and the counter
  ends at 2.
\<close>

theorem absent_token_counterexample:
  "\<not> sublist (tStr IncNum) ''[oFileN]'' \<and> \<not> sublist (tStr IncNumInFolder) ''[oFileN]''
   \<and> renamePlan ''[oFileN]'' [] clock0 [''/tmp/a/[incNum].txt'']
     = \<lparr>nFileList = [''/tmp/a/1.txt''], incN = 2, prevFolderP = ''/tmp/a/''\<rparr>"
  by code_simp

text \<open>
  Claim C9, amended. A token whose bracket form does not occur in the name as the
  earlier rounds have left it is skipped: the name and the counter stay as they are.
  And when, for every entry, the template with \<open>[oFileN]\<close> and \<open>[folderN]\<close>
  replaced by that entry's values contains neither \<open>[incNum]\<close> nor
  \<open>[incNumInFolder]\<close>, the counter is at the end of the pass what it was at the start, 1.
\<close>

theorem absent_token_is_skipped:
  "(\<not> sublist (tStr k) newFN \<longrightarrow>
      substitute oFileN folderPath prevF zeroPadN now k (newFN, n) = (newFN, n))
   \<and> ((\<forall>fp \<in> set fileList. \<not> sublist (tStr IncNum) (namesExpanded newForm fp)
                            \<and> \<not> sublist (tStr IncNumInFolder) (namesExpanded newForm fp))
        \<longrightarrow> incN (renamePlan newForm f2m clock fileList) = 1)"
  by (simp add: substitute_skip planLoop_counter renamePlan_def)

theorem absent_token_is_skipped_witness:
  "\<not> sublist (tStr IncNum) ''[oFileN]_[ts]''
   \<and> substitute ''x'' ''/tmp/a/'' ''/tmp/a/'' 1 (clock0 0) IncNum (''[oFileN]_[ts]'', 1)
       = (''[oFileN]_[ts]'', 1)
   \<and> namesExpanded ''[oFileN]_[ts]'' ''/tmp/a/x.txt'' = ''x_[ts]''
   \<and> namesExpanded ''[oFileN]_[ts]'' ''/tmp/b/z.txt'' = ''z_[ts]''
   \<and> \<not> sublist (tStr IncNum) ''x_[ts]'' \<and> \<not> sublist (tStr IncNumInFolder) ''x_[ts]''
   \<and> \<not> sublist (tStr IncNum) ''z_[ts]'' \<and> \<not> sublist (tStr IncNumInFolder) ''z_[ts]''
   \<and> incN (renamePlan ''[oFileN]_[ts]'' [] clock0 [''/tmp/a/x.txt'', ''/tmp/b/z.txt'']) = 1"
proof -
  have v: "namesExpanded ''[oFileN]_[ts]'' ''/tmp/a/x.txt'' = ''x_[ts]''
      \<and> namesExpanded ''[oFileN]_[ts]'' ''/tmp/b/z.txt'' = ''z_[ts]''
      \<and> \<not> sublist (tStr IncNum) ''x_[ts]'' \<and> \<not> sublist (tStr IncNumInFolder) ''x_[ts]''
      \<and> \<not> sublist (tStr IncNum) ''z_[ts]'' \<and> \<not> sublist (tStr IncNumInFolder) ''z_[ts]''"
    by code_simp
  have h1: "\<not> sublist (tStr IncNum) ''[oFileN]_[ts]''"
    by code_simp
  have h2: "\<forall>fp \<in> set [''/tmp/a/x.txt'', ''/tmp/b/z.txt''].
         \<not> sublist (tStr IncNum) (namesExpanded ''[oFileN]_[ts]'' fp)
         \<and> \<not> sublist (tStr IncNumInFolder) (namesExpanded ''[oFileN]_[ts]'' fp)"
    by code_simp
  show ?thesis
    using absent_token_is_skipped [of IncNum "''[oFileN]_[ts]''" "''x''" "''/tmp/a/''"
        "''/tmp/a/''" 1 "clock0 0" 1 "[''/tmp/a/x.txt'', ''/tmp/b/z.txt'']" "''[oFileN]_[ts]''"
        "[]" clock0] h1 h2 v
    by blast
qed

section \<open>The folder collector keeps what it is given\<close>

lemma those_append:
  "those (xs @ ys) =
     (case those xs of None \<Rightarrow> None
      | Some a \<Rightarrow> (case those ys of None \<Rightarrow> None | Some b \<Rightarrow> Some (a @ b)))"
  by (induction xs) (auto split: option.splits)

lemma those_map_member:
  "those (map f xs) = Some yss \<Longrightarrow> y \<in> set (concat yss)
     \<Longrightarrow> \<exists>x \<in> set xs. \<exists>ys. f x = Some ys \<and> y \<in> set ys"
proof (induction xs arbitrary: yss)
  case Nil
  then show ?case by simp
next
  case (Cons x xs)
  from Cons.prems(1) obtain ys yss' where f: "f x = Some ys" "those (map f xs) = Some yss'" "yss = ys # yss'"
    by (auto split: option.splits)
  with Cons.prems(2) consider "y \<in> set ys" | "y \<in> set (concat yss')" by auto
  then show ?case
  proof cases
    case 1
    with f show ?thesis by auto
  next
    case 2
    from Cons.IH[OF f(2) 2] show ?thesis by auto
  qed
qed

lemma those_map_Some:
  "those (map f xs) = Some yss \<Longrightarrow> x \<in> set xs \<Longrightarrow> \<exists>ys. f x = Some ys \<and> set ys \<subseteq> set (concat yss)"
proof (induction xs arbitrary: yss)
  case Nil
  then show ?case by simp
next
  case (Cons a xs)
  from Cons.prems(1) obtain ys yss' where f: "f a = Some ys" "those (map f xs) = Some yss'" "yss = ys # yss'"
    by (auto split: option.splits)
  show ?case
  proof (cases "x = a")
    case True
    with f show ?thesis by auto
  next
    case False
    with Cons.prems(2) have "x \<in> set xs" by simp
    from Cons.IH[OF f(2) this] f(3) show ?thesis by auto
  qed
qed

lemma selectFolders_roots:
  assumes "selectFolders depth fnm root paths sfChk = Some xs"
  shows "set (map stripDiskName paths) \<subseteq> set xs"
proof (cases sfChk)
  case False
  with assms show ?thesis by (auto simp: selectFolders_def)
next
  case True
  let ?f = "\<lambda>dp. map_option ((#) dp) (addFolders depth fnm root dp)"
  from assms True obtain yss where y: "those (map ?f (map stripDiskName paths)) = Some yss" "xs = concat yss"
    by (auto simp: selectFolders_def Let_def)
  show ?thesis
  proof
    fix dp assume "dp \<in> set (map stripDiskName paths)"
    from those_map_Some[OF y(1) this] obtain ys where "?f dp = Some ys" "set ys \<subseteq> set (concat yss)"
      by blast
    then show "dp \<in> set xs" using y(2) by auto
  qed
qed

lemma selectFolders_append:
  "selectFolders depth fnm root (ps @ qs) sfChk =
     (case selectFolders depth fnm root ps sfChk of
        None \<Rightarrow> None
      | Some a \<Rightarrow> (case selectFolders depth fnm root qs sfChk of
                    None \<Rightarrow> None
                  | Some b \<Rightarrow> Some (a @ b)))"
  by (cases sfChk)
     (auto simp: selectFolders_def Let_def those_append split: option.splits)

subsection \<open>\<open>addFolders\<close> is the walk over the sub-folders\<close>

lemma join_path_name: "CHR ''/'' \<notin> set n \<Longrightarrow> join_path d n = dirPrefix d @ n"
proof -
  assume "CHR ''/'' \<notin> set n"
  then have "\<not> prefix ''/'' n" by (cases n) auto
  then show ?thesis by (simp add: join_path_def dirPrefix_def)
qed

lemma dirPrefix_join: "n \<noteq> [] \<Longrightarrow> CHR ''/'' \<notin> set n \<Longrightarrow> dirPrefix (join_path d n) = dirPrefix d @ n @ ''/''"
proof -
  assume n: "n \<noteq> []" "CHR ''/'' \<notin> set n"
  then have "last (dirPrefix d @ n) = last n" by simp
  moreover have "last n \<noteq> CHR ''/''" using n by (metis last_in_set)
  ultimately show ?thesis using n by (simp add: join_path_name dirPrefix_def)
qed

lemma split_chr_append: "split_chr d (a @ d # b) = split_chr d a @ split_chr d b"
  by (induction a) (auto split: list.splits simp: split_chr_nonempty)

lemma components_join:
  assumes "n \<noteq> []" "CHR ''/'' \<notin> set n"
  shows "components (join_path d n) = components d @ [n]"
proof -
  have n: "split_chr CHR ''/'' n = [n]" using assms(2) by (rule split_chr_no_sep)
  show ?thesis
  proof (cases "d = []")
    case True
    with assms n show ?thesis by (simp add: join_path_name dirPrefix_def components_def)
  next
    case False
    show ?thesis
    proof (cases "last d = CHR ''/''")
      case True
      with False obtain d' where d: "d = d' @ ''/''"
        by (metis append_butlast_last_id)
      have "split_chr CHR ''/'' (d' @ CHR ''/'' # n) = split_chr CHR ''/'' d' @ [n]"
        by (simp add: split_chr_append n)
      moreover have "split_chr CHR ''/'' (d' @ CHR ''/'' # []) = split_chr CHR ''/'' d' @ [[]]"
        by (simp add: split_chr_append)
      ultimately show ?thesis
        using assms True False d by (simp add: join_path_name dirPrefix_def components_def)
    next
      case nl: False
      have "split_chr CHR ''/'' (d @ CHR ''/'' # n) = split_chr CHR ''/'' d @ [n]"
        by (simp add: split_chr_append n)
      with assms nl False show ?thesis by (simp add: join_path_name dirPrefix_def components_def)
    qed
  qed
qed

lemma lookup_append:
  "lookup nd (cs @ ds) = (case lookup nd cs of None \<Rightarrow> None | Some m \<Rightarrow> lookup m ds)"
  by (induction nd cs rule: lookup.induct) (auto split: option.splits)

lemma clean_dirname:
  assumes "fp \<noteq> []" "last fp \<noteq> CHR ''/''"
  shows "fst (split_path (join_path fp ''*'')) = fp"
proof -
  have j: "join_path fp ''*'' = (fp @ ''/'') @ ''*''"
    using assms by (simp add: join_path_def)
  have fpart: "folderPart (join_path fp ''*'') = fp @ ''/''"
    unfolding j by (rule folderPart_append) simp_all
  have "last fp \<in> set fp" using assms(1) by simp
  then have "fp @ ''/'' \<noteq> replicate (length (fp @ ''/'')) CHR ''/''"
    using assms(2) by (metis in_set_replicate in_set_conv_decomp Un_iff set_append)
  moreover have "dropWhile (\<lambda>c. c = CHR ''/'') (rev fp) = rev fp"
    using assms by (cases fp rule: rev_cases) auto
  ultimately show ?thesis
    by (simp add: split_path_def Let_def fpart)
qed


lemma lookup_wf_plain: "wf_plain nd \<Longrightarrow> lookup nd cs = Some nd' \<Longrightarrow> wf_plain nd'"
proof (induction nd cs rule: lookup.induct)
  case (1 nd)
  then show ?case by simp
next
  case (2 c cs)
  then show ?case by simp
next
  case (3 es c cs)
  from "3.prems"(2) obtain nd where nd: "map_of es c = Some nd" "lookup nd cs = Some nd'"
    by (auto split: option.splits)
  then have "(c, nd) \<in> set es" by (simp add: map_of_SomeD)
  with "3.prems"(1) have "wf_plain nd" by fastforce
  from "3.IH"[OF nd(1) this nd(2)] show ?case .
qed

lemma has_magic_append: "has_magic (a @ b) = (has_magic a \<or> has_magic b)"
  by (auto simp: has_magic_def)

lemma has_magic_join:
  "\<not> has_magic d \<Longrightarrow> \<not> has_magic n \<Longrightarrow> \<not> has_magic (join_path d n)"
  by (auto simp: join_path_def has_magic_def)

lemma star_path:
  "\<exists>X. join_path dp ''*'' = X @ ''*'' \<and> (X = [] \<or> last X = CHR ''/'') \<and> set X \<subseteq> set dp \<union> {CHR ''/''}"
proof (cases "dp = [] \<or> last dp = CHR ''/''")
  case True
  then have "join_path dp ''*'' = dp @ ''*''" by (auto simp: join_path_def)
  with True show ?thesis by blast
next
  case False
  then have "join_path dp ''*'' = (dp @ ''/'') @ ''*''" by (simp add: join_path_def)
  moreover have "last (dp @ ''/'') = CHR ''/''" by simp
  moreover have "set (dp @ ''/'') \<subseteq> set dp \<union> {CHR ''/''}" by simp
  ultimately show ?thesis by blast
qed

lemma listedDir_literal:
  assumes "\<not> has_magic dp"
  shows "\<not> has_magic (listedDir dp)"
proof -
  obtain X where X: "join_path dp ''*'' = X @ ''*''" "X = [] \<or> last X = CHR ''/''"
      "set X \<subseteq> set dp \<union> {CHR ''/''}"
    using star_path by blast
  have fp: "folderPart (join_path dp ''*'') = X"
    unfolding X(1) using X(2) by (rule folderPart_append) simp
  have "set (dropWhile (\<lambda>c. c = CHR ''/'') (rev X)) \<subseteq> set (rev X)"
    by (meson set_dropWhileD subsetI)
  then have sub: "set (rev (dropWhile (\<lambda>c. c = CHR ''/'') (rev X))) \<subseteq> set X"
    by simp
  have "listedDir dp = rev (dropWhile (\<lambda>c. c = CHR ''/'') (rev X)) \<or> listedDir dp = X"
    by (simp add: listedDir_def split_path_def Let_def fp)
  with sub have "set (listedDir dp) \<subseteq> set X"
    by (elim disjE) simp_all
  with X(3) have "set (listedDir dp) \<subseteq> set dp \<union> {CHR ''/''}"
    by blast
  with assms show ?thesis
    unfolding has_magic_def by fastforce
qed

lemma glob_star_literal:
  assumes "\<not> has_magic dp"
  shows "glob fnm root (join_path dp ''*'')
     = map (join_path (listedDir dp)) (glob1 fnm root (listedDir dp) ''*'' False)"
proof -
  let ?p = "join_path dp ''*''"
  obtain X where X: "?p = X @ ''*''"
    using star_path by blast
  have m: "has_magic ?p"
    unfolding X by (simp add: has_magic_def)
  have "basename ?p = basename ''*''"
    by (rule basename_join_path)
  then have b: "snd (split_path ?p) = ''*''"
    by (simp add: snd_split_path basename_def)
  have hm: "has_magic ''*''"
    by (simp add: has_magic_def)
  have nd: "\<not> has_magic (fst (split_path ?p))"
    using listedDir_literal[OF assms] by (simp add: listedDir_def)
  have j: "map (join_path []) ns = ns" for ns
    by (induction ns) (auto simp: join_path_def)
  show ?thesis
  proof (cases "fst (split_path ?p) = []")
    case True
    with m b show ?thesis
      unfolding glob_def listedDir_def by (subst iglob.simps) (simp add: j)
  next
    case False
    with m b hm nd show ?thesis
      unfolding glob_def listedDir_def by (subst iglob.simps) simp
  qed
qed

lemma iterdir_lookup:
  "iterdir root d False =
     (case lookup root (components d) of Some (Dir es) \<Rightarrow> map fst es | _ \<Rightarrow> [])"
proof (cases "d = []")
  case True
  then show ?thesis
    by (cases root) (simp_all add: iterdir_def components_def)
next
  case False
  then show ?thesis
    by (simp add: iterdir_def components_def resolve_def split: option.splits fsnode.splits)
qed

lemma those_map_eq:
  "those (map f xs) = Some yss \<Longrightarrow> (\<forall>x \<in> set xs. \<forall>z. f x = Some z \<longrightarrow> z = g x)
     \<Longrightarrow> yss = map g xs"
proof (induction xs arbitrary: yss)
  case Nil
  then show ?case by simp
next
  case (Cons x xs)
  from Cons.prems(1) obtain z zs where z: "f x = Some z" "those (map f xs) = Some zs" "yss = z # zs"
    by (auto split: option.splits)
  from Cons.prems(2) z(1) have "z = g x" by simp
  moreover from Cons.IH[OF z(2)] Cons.prems(2) have "zs = map g xs" by simp
  ultimately show ?case using z(3) by simp
qed

lemma concat_map_filter:
  "concat (map g (filter Q (map t es))) = concat (map (\<lambda>e. if Q (t e) then g (t e) else []) es)"
  by (induction es) auto

lemma resolve_child:
  assumes "wf_plain (Dir es)" "lookup root (components d) = Some (Dir es)" "(n, c) \<in> set es"
  shows "resolve root (join_path d n) = Some c"
proof -
  from assms(1,3) have n: "n \<noteq> []" "CHR ''/'' \<notin> set n" and dist: "distinct (map fst es)"
    by auto
  have "join_path d n \<noteq> []"
    using n by (simp add: join_path_name)
  moreover have "lookup root (components d @ [n]) = Some c"
    using assms(2,3) dist by (simp add: lookup_append)
  ultimately show ?thesis
    using n by (simp add: resolve_def components_join components_def[symmetric])
qed

lemma child_clean:
  assumes "n \<noteq> []" "CHR ''/'' \<notin> set n"
  shows "listedDir (join_path d n) = join_path d n"
proof -
  have "last (join_path d n) = last n" using assms by (simp add: join_path_name)
  moreover have "last n \<noteq> CHR ''/''" using assms by (metis last_in_set)
  moreover have "join_path d n \<noteq> []" using assms by (simp add: join_path_name)
  ultimately show ?thesis
    unfolding listedDir_def by (intro clean_dirname) simp_all
qed

lemma addFolders_subfolders:
  assumes "wf_plain root"
  shows "\<not> has_magic dp \<Longrightarrow> lookup root (components (listedDir dp)) = Some nd
           \<Longrightarrow> addFolders depth fnm root dp = Some xs
           \<Longrightarrow> xs = subfolders fnm (listedDir dp) nd"
proof (induction depth arbitrary: dp nd xs)
  case 0
  then show ?case by simp
next
  case (Suc k)
  let ?d = "listedDir dp"
  let ?F = "\<lambda>fp. if isdir root fp then map_option ((#) fp) (addFolders k fnm root fp) else Some []"
  have g: "glob fnm root (join_path dp ''*'') = map (join_path ?d) (glob1 fnm root ?d ''*'' False)"
    using Suc.prems(1) by (rule glob_star_literal)
  show ?case
  proof (cases nd)
    case File
    with Suc.prems(2) have "glob1 fnm root ?d ''*'' False = []"
      by (simp add: glob1_def Let_def iterdir_lookup)
    with Suc.prems(3) g File show ?thesis by simp
  next
    case (Dir es)
    have wf: "wf_plain (Dir es)"
      using assms Suc.prems(2) Dir lookup_wf_plain by blast
    let ?Q = "\<lambda>n. \<not> ishidden n \<and> fnm n ''*''"
    let ?G = "\<lambda>n. case map_of es n of
                  Some c \<Rightarrow> if is_Dir c then join_path ?d n # subfolders fnm (join_path ?d n) c else []
                | None \<Rightarrow> []"
    have names: "glob1 fnm root ?d ''*'' False = filter ?Q (map fst es)"
      using Suc.prems(2) Dir by (simp add: glob1_def Let_def iterdir_lookup ishidden_def)
    from Suc.prems(3) g names obtain yss where
        yss: "those (map (\<lambda>n. ?F (join_path ?d n)) (filter ?Q (map fst es))) = Some yss"
        "xs = concat yss"
      by (auto simp: comp_def)
    have step: "z = ?G n" if n: "n \<in> set (filter ?Q (map fst es))"
        and z: "?F (join_path ?d n) = Some z" for n z
    proof -
      from n obtain c where c: "(n, c) \<in> set es" by auto
      with wf have mo: "map_of es n = Some c" by simp
      from wf c have nn: "n \<noteq> []" "CHR ''/'' \<notin> set n" "\<not> has_magic n" by auto
      have r: "resolve root (join_path ?d n) = Some c"
        using wf Suc.prems(2) Dir c by (intro resolve_child) simp_all
      show ?thesis
      proof (cases c)
        case File
        with r z mo show ?thesis by (simp add: isdir_def)
      next
        case (Dir es')
        with r z obtain ys where ys: "addFolders k fnm root (join_path ?d n) = Some ys"
            "z = join_path ?d n # ys"
          by (auto simp: isdir_def)
        have cl: "listedDir (join_path ?d n) = join_path ?d n"
          using nn by (intro child_clean)
        have "\<not> has_magic (join_path ?d n)"
          using listedDir_literal[OF Suc.prems(1)] nn(3) by (rule has_magic_join)
        moreover have "lookup root (components (join_path ?d n)) = Some c"
          using r by (simp add: resolve_def components_def split: if_splits)
        then have "lookup root (components (listedDir (join_path ?d n))) = Some c"
          by (simp only: cl)
        ultimately have "ys = subfolders fnm (listedDir (join_path ?d n)) c"
          using ys(1) by (rule Suc.IH)
        with ys(2) mo Dir cl show ?thesis by simp
      qed
    qed
    have "yss = map ?G (filter ?Q (map fst es))"
      using yss(1) step by (intro those_map_eq) auto
    then have "xs = concat (map (\<lambda>e. if ?Q (fst e) then ?G (fst e) else []) es)"
      using yss(2) by (simp add: concat_map_filter)
    also have "\<dots> = subfolders fnm ?d (Dir es)"
    proof -
      have "(if ?Q (fst e) then ?G (fst e) else []) =
            (if \<not> ishidden (fst e) \<and> fnm (fst e) ''*'' \<and> is_Dir (snd e)
             then join_path ?d (fst e) # subfolders fnm (join_path ?d (fst e)) (snd e) else [])"
        if "e \<in> set es" for e
      proof -
        from that wf have "map_of es (fst e) = Some (snd e)" by simp
        then show ?thesis by simp
      qed
      then show ?thesis by (simp cong: map_cong)
    qed
    finally show ?thesis using Dir by simp
  qed
qed


lemma addFolders_nothing:
  assumes "\<not> has_magic dp" "lookup root (components (listedDir dp)) = None"
      "addFolders depth fnm root dp = Some xs"
  shows "xs = []"
proof (cases depth)
  case 0
  with assms(3) show ?thesis by simp
next
  case (Suc k)
  have "glob1 fnm root (listedDir dp) ''*'' False = []"
    using assms(2) by (simp add: glob1_def Let_def iterdir_lookup)
  then have "glob fnm root (join_path dp ''*'') = []"
    using glob_star_literal[OF assms(1)] by simp
  with assms(3) Suc show ?thesis by simp
qed

lemma takeWhile_name:
  assumes "CHR ''/'' \<notin> set n" "rest = [] \<or> hd rest = CHR ''/''"
  shows "takeWhile (\<lambda>c. c \<noteq> CHR ''/'') (n @ rest) = n"
proof (cases rest)
  case Nil
  with assms(1) show ?thesis by (auto simp: takeWhile_eq_all_conv)
next
  case (Cons r rs)
  with assms(2) have "r = CHR ''/''" by simp
  with Cons assms(1) show ?thesis by (simp add: takeWhile_until)
qed

lemma subfolders_form:
  "wf_plain nd \<Longrightarrow> x \<in> set (subfolders fnm d nd) \<Longrightarrow>
     \<exists>e rest. (\<exists>es. nd = Dir es \<and> e \<in> set es) \<and> x = dirPrefix d @ fst e @ rest
        \<and> (rest = [] \<or> hd rest = CHR ''/'')"
proof (induction fnm d nd arbitrary: x rule: subfolders.induct)
  case (1 fnm d)
  then show ?case by simp
next
  case (2 fnm d es)
  from "2.prems"(2) obtain e where e: "e \<in> set es"
      "\<not> ishidden (fst e) \<and> fnm (fst e) ''*'' \<and> is_Dir (snd e)"
      "x = join_path d (fst e) \<or> x \<in> set (subfolders fnm (join_path d (fst e)) (snd e))"
    by (auto split: if_splits)
  from "2.prems"(1) e(1) have n: "fst e \<noteq> []" "CHR ''/'' \<notin> set (fst e)" and wf: "wf_plain (snd e)"
    by auto
  from e(3) show ?case
  proof
    assume "x = join_path d (fst e)"
    with n have "x = dirPrefix d @ fst e @ []" by (simp add: join_path_name)
    with e(1) show ?thesis by blast
  next
    assume "x \<in> set (subfolders fnm (join_path d (fst e)) (snd e))"
    from "2.IH"[OF e(1) e(2) wf this] obtain n' rest' where
        r: "x = dirPrefix (join_path d (fst e)) @ n' @ rest'"
      by blast
    then have "x = dirPrefix d @ fst e @ (''/'' @ n' @ rest')"
      using n by (simp add: dirPrefix_join)
    with e(1) show ?thesis by (metis append_Cons list.sel(1))
  qed
qed

lemma subfolders_longer:
  assumes "wf_plain nd" "x \<in> set (subfolders fnm d nd)"
  shows "length (dirPrefix d) < length x"
proof -
  from subfolders_form[OF assms] obtain e rest es where
      e: "nd = Dir es" "e \<in> set es" "x = dirPrefix d @ fst e @ rest"
    by blast
  with assms(1) have "fst e \<noteq> []" by auto
  with e(3) show ?thesis by simp
qed

lemma distinct_concat_tagged:
  assumes "distinct (map t es)"
      and "\<And>e. e \<in> set es \<Longrightarrow> distinct (h e)"
      and "\<And>e x. e \<in> set es \<Longrightarrow> x \<in> set (h e) \<Longrightarrow> tag x = t e"
  shows "distinct (concat (map h es))"
  using assms
proof (induction es)
  case Nil
  then show ?case by simp
next
  case (Cons e es)
  have d1: "distinct (h e)" using Cons.prems(2) by simp
  have d2: "distinct (concat (map h es))"
    using Cons.prems by (intro Cons.IH) auto
  have "set (h e) \<inter> set (concat (map h es)) = {}"
  proof (rule ccontr)
    assume "set (h e) \<inter> set (concat (map h es)) \<noteq> {}"
    then obtain x e' where x: "x \<in> set (h e)" "e' \<in> set es" "x \<in> set (h e')"
      by auto
    then have "tag x = t e" "tag x = t e'"
      using Cons.prems(3) by simp_all
    then have "t e \<in> t ` set es" using x(2) by (metis imageI)
    with Cons.prems(1) show False by simp
  qed
  with d1 d2 show ?case by simp
qed

lemma subfolders_distinct:
  "wf_plain nd \<Longrightarrow> distinct (subfolders fnm d nd)"
proof (induction fnm d nd rule: subfolders.induct)
  case (1 fnm d)
  then show ?case by simp
next
  case (2 fnm d es)
  let ?h = "\<lambda>e. if \<not> ishidden (fst e) \<and> fnm (fst e) ''*'' \<and> is_Dir (snd e)
                 then join_path d (fst e) # subfolders fnm (join_path d (fst e)) (snd e)
                 else []"
  let ?tag = "\<lambda>x. takeWhile (\<lambda>c. c \<noteq> CHR ''/'') (drop (length (dirPrefix d)) x)"
  have dist: "distinct (map fst es)" using "2.prems" by simp
  have each: "distinct (?h e)" if e: "e \<in> set es" for e
  proof (cases "\<not> ishidden (fst e) \<and> fnm (fst e) ''*'' \<and> is_Dir (snd e)")
    case False
    then have "?h e = []" by (rule if_not_P)
    then show ?thesis by simp
  next
    case True
    then have h: "?h e = join_path d (fst e) # subfolders fnm (join_path d (fst e)) (snd e)"
      by (rule if_P)
    from "2.prems" e have wf: "wf_plain (snd e)" and n: "fst e \<noteq> []" "CHR ''/'' \<notin> set (fst e)"
      by auto
    have "distinct (subfolders fnm (join_path d (fst e)) (snd e))"
      using e True wf by (rule "2.IH")
    moreover have "join_path d (fst e) \<notin> set (subfolders fnm (join_path d (fst e)) (snd e))"
    proof
      assume "join_path d (fst e) \<in> set (subfolders fnm (join_path d (fst e)) (snd e))"
      from subfolders_longer[OF wf this]
      have "length (dirPrefix (join_path d (fst e))) < length (join_path d (fst e))" .
      moreover have "dirPrefix (join_path d (fst e)) = dirPrefix d @ fst e @ ''/''"
        using n by (rule dirPrefix_join)
      moreover have "join_path d (fst e) = dirPrefix d @ fst e"
        using n(2) by (rule join_path_name)
      ultimately show False by simp
    qed
    ultimately show ?thesis unfolding h by simp
  qed
  have tags: "?tag x = fst e" if e: "e \<in> set es" and x: "x \<in> set (?h e)" for e x
  proof -
    from x have "x \<in> set (subfolders fnm d (Dir [e]))" by simp
    moreover from "2.prems" e have "wf_plain (Dir [e])" by simp
    ultimately have "\<exists>e' rest. (\<exists>es. Dir [e] = Dir es \<and> e' \<in> set es) \<and> x = dirPrefix d @ fst e' @ rest
        \<and> (rest = [] \<or> hd rest = CHR ''/'')"
      by (intro subfolders_form)
    then obtain rest where r: "x = dirPrefix d @ fst e @ rest" "rest = [] \<or> hd rest = CHR ''/''"
      by auto
    from "2.prems" e have "CHR ''/'' \<notin> set (fst e)" by auto
    then show ?thesis using r by (simp add: takeWhile_name)
  qed
  have "distinct (concat (map ?h es))"
    using dist each tags by (rule distinct_concat_tagged)
  then show ?case by simp
qed

lemma listedDir_slashes: "\<exists>s. dp = listedDir dp @ s \<and> set s \<subseteq> {CHR ''/''}"
proof -
  have strip: "\<exists>s. y = rev (dropWhile (\<lambda>c. c = CHR ''/'') (rev y)) @ s \<and> set s \<subseteq> {CHR ''/''}"
    for y :: string
  proof -
    have "y = rev (dropWhile (\<lambda>c. c = CHR ''/'') (rev y)) @ rev (takeWhile (\<lambda>c. c = CHR ''/'') (rev y))"
      by (metis rev_append rev_rev_ident takeWhile_dropWhile_id)
    moreover have "set (rev (takeWhile (\<lambda>c. c = CHR ''/'') (rev y))) \<subseteq> {CHR ''/''}"
      using set_takeWhileD by fastforce
    ultimately show ?thesis by blast
  qed
  show ?thesis
  proof (cases "dp = [] \<or> last dp = CHR ''/''")
    case True
    then have "join_path dp ''*'' = dp @ ''*''" by (auto simp: join_path_def)
    moreover have "folderPart (dp @ ''*'') = dp"
      using True by (rule folderPart_append) simp
    ultimately have "listedDir dp = rev (dropWhile (\<lambda>c. c = CHR ''/'') (rev dp)) \<or> listedDir dp = dp"
      by (simp add: listedDir_def split_path_def Let_def)
    then show ?thesis
    proof
      assume "listedDir dp = rev (dropWhile (\<lambda>c. c = CHR ''/'') (rev dp))"
      with strip[of dp] show ?thesis by simp
    next
      assume "listedDir dp = dp"
      then show ?thesis by simp
    qed
  next
    case False
    then have "listedDir dp = dp"
      unfolding listedDir_def by (intro clean_dirname) simp_all
    then show ?thesis by simp
  qed
qed

lemma root_not_subfolder:
  assumes "wf_plain nd" "x \<in> set (subfolders fnm (listedDir dp) nd)"
  shows "x \<noteq> dp"
proof
  assume eq: "x = dp"
  let ?d = "listedDir dp"
  from subfolders_form[OF assms] obtain e rest es where
      e: "nd = Dir es" "e \<in> set es" "x = dirPrefix ?d @ fst e @ rest"
    by blast
  with assms(1) have n: "fst e \<noteq> []" "CHR ''/'' \<notin> set (fst e)" by auto
  obtain s where s: "dp = ?d @ s" "set s \<subseteq> {CHR ''/''}"
    using listedDir_slashes by blast
  from n have h: "hd (fst e) \<noteq> CHR ''/''" by (metis hd_in_set)
  have "dropWhile (\<lambda>c. c = CHR ''/'') s = []"
    using s(2) by (auto simp: dropWhile_eq_Nil_conv)
  moreover have "s = fst e @ rest \<or> s = ''/'' @ fst e @ rest"
  proof -
    have a: "?d @ s = dirPrefix ?d @ fst e @ rest"
      using e(3) eq s(1) by simp
    have "dirPrefix ?d = ?d \<or> dirPrefix ?d = ?d @ ''/''"
      by (simp add: dirPrefix_def)
    then show ?thesis
    proof
      assume "dirPrefix ?d = ?d"
      with a have "?d @ s = ?d @ fst e @ rest" by simp
      then show ?thesis by simp
    next
      assume "dirPrefix ?d = ?d @ ''/''"
      with a have "?d @ s = ?d @ ''/'' @ fst e @ rest" by simp
      then show ?thesis by simp
    qed
  qed
  moreover have "dropWhile (\<lambda>c. c = CHR ''/'') (fst e @ rest) \<noteq> []"
    using n h by (cases "fst e") auto
  ultimately show False by (elim disjE) simp_all
qed

lemma single_root_distinct:
  assumes "wf_plain root" "\<not> has_magic (stripDiskName p)"
      "selectFolders depth fnm root [p] True = Some xs"
  shows "distinct xs"
proof -
  let ?dp = "stripDiskName p"
  from assms(3) obtain ys where ys: "addFolders depth fnm root ?dp = Some ys" "xs = ?dp # ys"
    by (auto simp: selectFolders_def split: option.splits)
  show ?thesis
  proof (cases "lookup root (components (listedDir ?dp))")
    case None
    have "ys = []" using assms(2) None ys(1) by (rule addFolders_nothing)
    with ys(2) show ?thesis by simp
  next
    case (Some nd)
    with assms(1,2) ys(1) have eq: "ys = subfolders fnm (listedDir ?dp) nd"
      by (intro addFolders_subfolders)
    have wf: "wf_plain nd" using assms(1) Some by (rule lookup_wf_plain)
    then have "distinct ys" unfolding eq by (rule subfolders_distinct)
    moreover have "?dp \<notin> set ys"
      unfolding eq using root_not_subfolder[OF wf] by blast
    ultimately show ?thesis using ys(2) by simp
  qed
qed


lemma dheight_entry: "e \<in> set es \<Longrightarrow> dheight (snd e) \<le> foldr (\<lambda>e m. max (dheight (snd e)) m) es 0"
  by (induction es) auto

lemma dheight_lookup: "lookup nd cs = Some nd' \<Longrightarrow> dheight nd' \<le> dheight nd"
proof (induction nd cs rule: lookup.induct)
  case (1 nd)
  then show ?case by simp
next
  case (2 c cs)
  then show ?case by simp
next
  case (3 es c cs)
  from "3.prems" obtain nd where nd: "map_of es c = Some nd" "lookup nd cs = Some nd'"
    by (auto split: option.splits)
  then have "(c, nd) \<in> set es" by (simp add: map_of_SomeD)
  then have "dheight nd \<le> foldr (\<lambda>e m. max (dheight (snd e)) m) es 0"
    using dheight_entry[of "(c, nd)" es] by simp
  moreover from "3.IH"[OF nd] have "dheight nd' \<le> dheight nd" .
  ultimately show ?case by simp
qed

lemma those_map_Some_all:
  "(\<And>x. x \<in> set xs \<Longrightarrow> \<exists>y. f x = Some y) \<Longrightarrow> \<exists>ys. those (map f xs) = Some ys"
proof (induction xs)
  case Nil
  then show ?case by simp
next
  case (Cons x xs)
  then obtain y ys where "f x = Some y" "those (map f xs) = Some ys"
    by (metis list.set_intros(1) list.set_intros(2))
  then show ?case by simp
qed

lemma addFolders_returns:
  assumes "wf_plain root"
  shows "\<not> has_magic dp \<Longrightarrow> lookup root (components (listedDir dp)) = Some nd
           \<Longrightarrow> dheight nd < depth \<Longrightarrow> \<exists>xs. addFolders depth fnm root dp = Some xs"
proof (induction depth arbitrary: dp nd)
  case 0
  then show ?case by simp
next
  case (Suc k)
  let ?d = "listedDir dp"
  let ?F = "\<lambda>fp. if isdir root fp then map_option ((#) fp) (addFolders k fnm root fp) else Some []"
  have g: "glob fnm root (join_path dp ''*'') = map (join_path ?d) (glob1 fnm root ?d ''*'' False)"
    using Suc.prems(1) by (rule glob_star_literal)
  have "\<exists>y. ?F fp = Some y" if fp: "fp \<in> set (glob fnm root (join_path dp ''*''))" for fp
  proof (cases "isdir root fp")
    case False
    then show ?thesis by simp
  next
    case True
    from fp g obtain n where n: "fp = join_path ?d n" "n \<in> set (glob1 fnm root ?d ''*'' False)"
      by auto
    from n(2) have "n \<in> set (iterdir root ?d False)"
      by (auto simp: glob1_def Let_def split: if_splits)
    with Suc.prems(2) obtain es c where es: "nd = Dir es" "(n, c) \<in> set es"
      by (auto simp: iterdir_lookup split: fsnode.splits)
    have wf: "wf_plain (Dir es)"
      using assms Suc.prems(2) es(1) lookup_wf_plain by blast
    with es(2) have nn: "n \<noteq> []" "CHR ''/'' \<notin> set n" "\<not> has_magic n" by auto
    have r: "resolve root (join_path ?d n) = Some c"
      using wf Suc.prems(2) es by (intro resolve_child) simp_all
    have cl: "listedDir (join_path ?d n) = join_path ?d n"
      using nn by (intro child_clean)
    have "\<not> has_magic (join_path ?d n)"
      using listedDir_literal[OF Suc.prems(1)] nn(3) by (rule has_magic_join)
    moreover have "lookup root (components (join_path ?d n)) = Some c"
      using r by (simp add: resolve_def components_def split: if_splits)
    then have "lookup root (components (listedDir (join_path ?d n))) = Some c"
      by (simp only: cl)
    moreover have "dheight c < k"
    proof -
      have "dheight c \<le> foldr (\<lambda>e m. max (dheight (snd e)) m) es 0"
        using dheight_entry[OF es(2)] by simp
      with Suc.prems(3) es(1) show ?thesis by simp
    qed
    ultimately have "\<exists>xs. addFolders k fnm root (join_path ?d n) = Some xs"
      by (rule Suc.IH)
    with n(1) True show ?thesis by auto
  qed
  then have "\<exists>yss. those (map ?F (glob fnm root (join_path dp ''*''))) = Some yss"
    by (rule those_map_Some_all)
  then show ?case by auto
qed

lemma addFolders_returns_nothing:
  assumes "\<not> has_magic dp" "lookup root (components (listedDir dp)) = None"
  shows "addFolders (Suc k) fnm root dp = Some []"
proof -
  have "glob1 fnm root (listedDir dp) ''*'' False = []"
    using assms(2) by (simp add: glob1_def Let_def iterdir_lookup)
  then have "glob fnm root (join_path dp ''*'') = []"
    using glob_star_literal[OF assms(1)] by simp
  then show ?thesis by simp
qed

lemma addFolders_returns_root:
  assumes "wf_plain root" "\<not> has_magic dp" "dheight root < depth"
  shows "\<exists>ys. addFolders depth fnm root dp = Some ys"
proof (cases "lookup root (components (listedDir dp))")
  case None
  from assms(3) obtain k where "depth = Suc k" by (cases depth) auto
  with addFolders_returns_nothing[OF assms(2) None] show ?thesis by blast
next
  case (Some nd)
  then have "dheight nd \<le> dheight root" by (rule dheight_lookup)
  with assms(3) have "dheight nd < depth" by simp
  with assms(1,2) Some show ?thesis by (intro addFolders_returns)
qed

lemma single_root_returns:
  assumes "wf_plain root" "\<not> has_magic (stripDiskName p)" "dheight root < depth"
  shows "\<exists>xs. selectFolders depth fnm root [p] True = Some xs"
proof -
  have "\<exists>ys. addFolders depth fnm root (stripDiskName p) = Some ys"
    using assms by (rule addFolders_returns_root)
  then show ?thesis by (auto simp: selectFolders_def)
qed


subsection \<open>Duplicates in the folder set\<close>

text \<open>
  Claim C6, as it stands, fails: nothing in the collector removes a path. With
  sub-folders included, picking \<open>/tmp\<close> and \<open>/tmp/a\<close> lists \<open>/tmp/a\<close> and the
  folders below it twice, once as sub-folders of \<open>/tmp\<close> and once for the second pick.
\<close>

theorem folder_set_duplicates_counterexample:
  "selectFolders 1000 fnmatch fs0 [''/tmp'', ''/tmp/a''] True
     = Some [''/tmp'', ''/tmp/a'', ''/tmp/a/sub'', ''/tmp/a/sub/deep'', ''/tmp/b'',
             ''/tmp/a'', ''/tmp/a/sub'', ''/tmp/a/sub/deep'']
   \<and> \<not> distinct [''/tmp'', ''/tmp/a'', ''/tmp/a/sub'', ''/tmp/a/sub/deep'', ''/tmp/b'',
             ''/tmp/a'', ''/tmp/a/sub'', ''/tmp/a/sub/deep'']"
  by code_simp

text \<open>
  Two more ways to a duplicate: two picks that are the same path once the disk name
  is cut off, and a folder named \<open>*\<close>, whose listing \<open>glob\<close> reads as a pattern, so
  that the folders beside it are listed again.
\<close>

lemma stripped_picks_coincide:
  "selectFolders 1000 fnmatch fs0 [''Macintosh HD/tmp/a'', ''Untitled/tmp/a''] False
     = Some [''/tmp/a'', ''/tmp/a'']"
  by code_simp

lemma star_folder_duplicates:
  "selectFolders 1000 fnmatch fsStar [''/r''] True
     = Some [''/r'', ''/r/*'', ''/r/a/y'', ''/r/a'', ''/r/a/y'']"
  by code_simp

text \<open>
  Every folder of the walk below \<open>d\<close> has the components of \<open>d\<close> and at least one
  more; so every path that a pick contributes begins, component by component, with
  that pick.
\<close>

lemma slashes_no_components:
  "set s \<subseteq> {CHR ''/''} \<Longrightarrow> filter (\<lambda>w. w \<noteq> []) (split_chr CHR ''/'' s) = []"
  by (induction s) auto

lemma components_slashes:
  assumes "set s \<subseteq> {CHR ''/''}"
  shows "components (d @ s) = components d"
proof (cases s)
  case Nil
  then show ?thesis by simp
next
  case (Cons c s')
  with assms have c: "c = CHR ''/''" and s': "set s' \<subseteq> {CHR ''/''}" by auto
  have "split_chr CHR ''/'' (d @ CHR ''/'' # s') = split_chr CHR ''/'' d @ split_chr CHR ''/'' s'"
    by (rule split_chr_append)
  then show ?thesis
    using Cons c slashes_no_components[OF s'] by (simp add: components_def)
qed

lemma components_listedDir: "components (listedDir dp) = components dp"
proof -
  obtain s where s: "dp = listedDir dp @ s" "set s \<subseteq> {CHR ''/''}"
    using listedDir_slashes by blast
  have "components (listedDir dp @ s) = components (listedDir dp)"
    using s(2) by (rule components_slashes)
  with s(1) show ?thesis by simp
qed

lemma subfolders_components:
  "wf_plain nd \<Longrightarrow> x \<in> set (subfolders fnm d nd) \<Longrightarrow>
     \<exists>cs. cs \<noteq> [] \<and> components x = components d @ cs"
proof (induction fnm d nd arbitrary: x rule: subfolders.induct)
  case (1 fnm d)
  then show ?case by simp
next
  case (2 fnm d es)
  from "2.prems"(2) obtain e where e: "e \<in> set es"
      "\<not> ishidden (fst e) \<and> fnm (fst e) ''*'' \<and> is_Dir (snd e)"
      "x = join_path d (fst e) \<or> x \<in> set (subfolders fnm (join_path d (fst e)) (snd e))"
    by (auto split: if_splits)
  from "2.prems"(1) e(1) have n: "fst e \<noteq> []" "CHR ''/'' \<notin> set (fst e)" and wf: "wf_plain (snd e)"
    by auto
  have j: "components (join_path d (fst e)) = components d @ [fst e]"
    using n by (rule components_join)
  from e(3) show ?case
  proof
    assume "x = join_path d (fst e)"
    with j show ?thesis by simp
  next
    assume "x \<in> set (subfolders fnm (join_path d (fst e)) (snd e))"
    from "2.IH"[OF e(1) e(2) wf this] obtain cs where
        "components x = components (join_path d (fst e)) @ cs"
      by blast
    with j have "components x = components d @ (fst e # cs)" by simp
    then show ?thesis by blast
  qed
qed

lemma single_root_members:
  assumes "wf_plain root" "\<not> has_magic (stripDiskName p)"
      "selectFolders depth fnm root [p] True = Some xs" "x \<in> set xs"
  shows "prefix (components (stripDiskName p)) (components x)"
proof -
  let ?dp = "stripDiskName p"
  from assms(3) obtain ys where ys: "addFolders depth fnm root ?dp = Some ys" "xs = ?dp # ys"
    by (auto simp: selectFolders_def split: option.splits)
  show ?thesis
  proof (cases "x = ?dp")
    case True
    then show ?thesis by simp
  next
    case False
    with assms(4) ys(2) have xy: "x \<in> set ys" by simp
    show ?thesis
    proof (cases "lookup root (components (listedDir ?dp))")
      case None
      have "ys = []" using assms(2) None ys(1) by (rule addFolders_nothing)
      with xy show ?thesis by simp
    next
      case (Some nd)
      with assms(1,2) ys(1) have eq: "ys = subfolders fnm (listedDir ?dp) nd"
        by (intro addFolders_subfolders)
      have wf: "wf_plain nd" using assms(1) Some by (rule lookup_wf_plain)
      from xy obtain cs where "components x = components (listedDir ?dp) @ cs"
        unfolding eq using subfolders_components[OF wf] by blast
      then show ?thesis by (simp add: components_listedDir)
    qed
  qed
qed

lemma selectFolders_Cons:
  assumes "selectFolders depth fnm root (p # ps) sfChk = Some xs"
  shows "\<exists>a b. selectFolders depth fnm root [p] sfChk = Some a
             \<and> selectFolders depth fnm root ps sfChk = Some b \<and> xs = a @ b"
proof -
  have "selectFolders depth fnm root ([p] @ ps) sfChk =
     (case selectFolders depth fnm root [p] sfChk of
        None \<Rightarrow> None
      | Some a \<Rightarrow> (case selectFolders depth fnm root ps sfChk of
                    None \<Rightarrow> None
                  | Some b \<Rightarrow> Some (a @ b)))"
    by (rule selectFolders_append)
  with assms show ?thesis by (auto split: option.splits)
qed

lemma selectFolders_members:
  assumes "sfChk \<longrightarrow> wf_plain root \<and> (\<forall>p \<in> set paths. \<not> has_magic (stripDiskName p))"
  shows "selectFolders depth fnm root paths sfChk = Some xs \<Longrightarrow> x \<in> set xs \<Longrightarrow>
     \<exists>p \<in> set paths. prefix (components (stripDiskName p)) (components x)"
  using assms
proof (induction paths arbitrary: xs)
  case Nil
  then show ?case by (cases sfChk) (auto simp: selectFolders_def)
next
  case (Cons p ps)
  from selectFolders_Cons[OF Cons.prems(1)] obtain a b where
      ab: "selectFolders depth fnm root [p] sfChk = Some a"
          "selectFolders depth fnm root ps sfChk = Some b" "xs = a @ b"
    by blast
  from Cons.prems(2) ab(3) consider "x \<in> set a" | "x \<in> set b" by auto
  then show ?case
  proof cases
    case 1
    have "prefix (components (stripDiskName p)) (components x)"
    proof (cases sfChk)
      case True
      with Cons.prems(3) have "wf_plain root" "\<not> has_magic (stripDiskName p)" by auto
      then show ?thesis using ab(1) 1 True by (intro single_root_members) auto
    next
      case False
      with ab(1) 1 show ?thesis by (auto simp: selectFolders_def)
    qed
    then show ?thesis by auto
  next
    case 2
    have "sfChk \<longrightarrow> wf_plain root \<and> (\<forall>p \<in> set ps. \<not> has_magic (stripDiskName p))"
      using Cons.prems(3) by auto
    from Cons.IH[OF ab(2) 2 this] show ?thesis by auto
  qed
qed

text \<open>
  So picks that lie apart contribute disjoint lists, each without duplicates.
\<close>

lemma apart_roots_distinct:
  assumes "sfChk \<longrightarrow> wf_plain root \<and> (\<forall>p \<in> set paths. \<not> has_magic (stripDiskName p))"
  shows "rootsApart (map stripDiskName paths) \<Longrightarrow>
     selectFolders depth fnm root paths sfChk = Some xs \<Longrightarrow> distinct xs"
  using assms
proof (induction paths arbitrary: xs)
  case Nil
  then show ?case by (cases sfChk) (auto simp: selectFolders_def)
next
  case (Cons p ps)
  from selectFolders_Cons[OF Cons.prems(2)] obtain a b where
      ab: "selectFolders depth fnm root [p] sfChk = Some a"
          "selectFolders depth fnm root ps sfChk = Some b" "xs = a @ b"
    by blast
  have rest: "sfChk \<longrightarrow> wf_plain root \<and> (\<forall>p \<in> set ps. \<not> has_magic (stripDiskName p))"
    using Cons.prems(3) by auto
  have one: "sfChk \<longrightarrow> wf_plain root \<and> (\<forall>q \<in> set [p]. \<not> has_magic (stripDiskName q))"
    using Cons.prems(3) by auto
  have da: "distinct a"
  proof (cases sfChk)
    case True
    with Cons.prems(3) have "wf_plain root" "\<not> has_magic (stripDiskName p)" by auto
    then show ?thesis using ab(1) True by (intro single_root_distinct) auto
  next
    case False
    with ab(1) show ?thesis by (auto simp: selectFolders_def)
  qed
  have db: "distinct b"
    using Cons.prems(1) ab(2) rest by (intro Cons.IH) auto
  have "set a \<inter> set b = {}"
  proof (rule ccontr)
    assume "set a \<inter> set b \<noteq> {}"
    then obtain x where x: "x \<in> set a" "x \<in> set b" by auto
    from selectFolders_members[OF one ab(1) x(1)]
    have pa: "prefix (components (stripDiskName p)) (components x)" by simp
    from selectFolders_members[OF rest ab(2) x(2)] obtain q where
        q: "q \<in> set ps" "prefix (components (stripDiskName q)) (components x)"
      by blast
    from pa q(2) have "prefix (components (stripDiskName p)) (components (stripDiskName q))
        \<or> prefix (components (stripDiskName q)) (components (stripDiskName p))"
      by (rule prefix_same_cases)
    with Cons.prems(1) q(1) show False by auto
  qed
  with da db ab(3) show ?case by simp
qed

lemma selectFolders_returns:
  assumes "wf_plain root" "\<forall>p \<in> set paths. \<not> has_magic (stripDiskName p)" "dheight root < depth"
  shows "\<exists>xs. selectFolders depth fnm root paths sfChk = Some xs"
proof (cases sfChk)
  case False
  then show ?thesis by (simp add: selectFolders_def)
next
  case True
  have "\<exists>y. map_option ((#) dp) (addFolders depth fnm root dp) = Some y"
    if "dp \<in> set (map stripDiskName paths)" for dp
  proof -
    from that assms(2) have "\<not> has_magic dp" by auto
    with assms(1) have "\<exists>ys. addFolders depth fnm root dp = Some ys"
      using assms(3) by (rule addFolders_returns_root)
    then show ?thesis by auto
  qed
  then have "\<exists>yss. those (map (\<lambda>dp. map_option ((#) dp) (addFolders depth fnm root dp))
      (map stripDiskName paths)) = Some yss"
    by (rule those_map_Some_all)
  with True show ?thesis by (auto simp: selectFolders_def)
qed

text \<open>
  Claim C6, amended. For every list of picked folders and either value of the
  check box: when the picked paths, with the disk name cut off, are pairwise
  different and, with sub-folders included, none of them is another one or lies below
  another one, the folder set has no duplicates. With sub-folders included this is
  for a file system with plain names (different within a folder, no wildcard
  character) and picked paths without wildcard characters. Under the same
  conditions the folder set is returned whenever, with sub-folders included, the
  recursion depth allowed exceeds the depth of the tree.
\<close>

theorem folder_set_has_no_duplicates:
  assumes "distinct (map stripDiskName paths)"
      and "sfChk \<longrightarrow> rootsApart (map stripDiskName paths) \<and> wf_plain root
                   \<and> (\<forall>p \<in> set paths. \<not> has_magic (stripDiskName p))"
  shows "(\<forall>xs. selectFolders depth fnm root paths sfChk = Some xs \<longrightarrow> distinct xs)
       \<and> ((sfChk \<longrightarrow> dheight root < depth)
            \<longrightarrow> (\<exists>xs. selectFolders depth fnm root paths sfChk = Some xs))"
proof (cases sfChk)
  case False
  then have "selectFolders depth fnm root paths sfChk = Some (map stripDiskName paths)"
    by (simp add: selectFolders_def)
  with assms(1) show ?thesis by simp
next
  case True
  with assms(2) have h: "rootsApart (map stripDiskName paths)" "wf_plain root"
      "\<forall>p \<in> set paths. \<not> has_magic (stripDiskName p)"
    by auto
  from h(2,3) have a: "sfChk \<longrightarrow> wf_plain root \<and> (\<forall>p \<in> set paths. \<not> has_magic (stripDiskName p))"
    by simp
  have "distinct xs" if "selectFolders depth fnm root paths sfChk = Some xs" for xs
    using a h(1) that by (rule apart_roots_distinct)
  moreover have "\<exists>xs. selectFolders depth fnm root paths sfChk = Some xs"
    if "dheight root < depth"
    using h(2,3) that by (rule selectFolders_returns)
  ultimately show ?thesis using True by blast
qed

theorem folder_set_has_no_duplicates_witness:
  "distinct (map stripDiskName [''Macintosh HD/tmp/a'', ''/tmp/b''])
   \<and> rootsApart (map stripDiskName [''Macintosh HD/tmp/a'', ''/tmp/b''])
   \<and> wf_plain fs0
   \<and> list_all (\<lambda>p. \<not> has_magic (stripDiskName p)) [''Macintosh HD/tmp/a'', ''/tmp/b'']
   \<and> dheight fs0 < 1000
   \<and> selectFolders 1000 fnmatch fs0 [''Macintosh HD/tmp/a'', ''/tmp/b''] True
       = Some [''/tmp/a'', ''/tmp/a/sub'', ''/tmp/a/sub/deep'', ''/tmp/b'']
   \<and> distinct [''/tmp/a'', ''/tmp/a/sub'', ''/tmp/a/sub/deep'', ''/tmp/b'']"
proof -
  have h1: "distinct (map stripDiskName [''Macintosh HD/tmp/a'', ''/tmp/b''])"
    by code_simp
  have h2: "rootsApart (map stripDiskName [''Macintosh HD/tmp/a'', ''/tmp/b''])"
    by code_simp
  have h3: "wf_plain fs0"
    by code_simp
  have h4: "list_all (\<lambda>p. \<not> has_magic (stripDiskName p)) [''Macintosh HD/tmp/a'', ''/tmp/b'']"
    by code_simp
  then have h4': "\<forall>p \<in> set [''Macintosh HD/tmp/a'', ''/tmp/b'']. \<not> has_magic (stripDiskName p)"
    by (simp only: list_all_iff)
  have h5: "dheight fs0 < 1000"
    by code_simp
  have v: "selectFolders 1000 fnmatch fs0 [''Macintosh HD/tmp/a'', ''/tmp/b''] True
       = Some [''/tmp/a'', ''/tmp/a/sub'', ''/tmp/a/sub/deep'', ''/tmp/b'']"
    by code_simp
  have "distinct [''/tmp/a'', ''/tmp/a/sub'', ''/tmp/a/sub/deep'', ''/tmp/b'']"
    using folder_set_has_no_duplicates [where paths = "[''Macintosh HD/tmp/a'', ''/tmp/b'']"
        and sfChk = True and root = fs0 and depth = 1000 and fnm = fnmatch] h1 h2 h3 h4' h5 v
    by blast
  with h1 h2 h3 h4 h5 v show ?thesis by blast
qed

subsection \<open>Picked paths that are not folders\<close>

text \<open>
  Claim C7, as it stands, fails: the handler never asks whether a picked path exists
  or is a directory, and it has nothing to report to. A path that does not exist and
  a path that is a file both stay in the folder set.
\<close>

theorem invalid_root_counterexample:
  "selectFolders 1000 fnmatch fs0 [''/nowhere'', ''/tmp/f.dat'', ''/tmp/b''] True
     = Some [''/nowhere'', ''/tmp/f.dat'', ''/tmp/b'']
   \<and> \<not> lexists fs0 ''/nowhere'' \<and> \<not> isdir fs0 ''/tmp/f.dat''"
  by code_simp

text \<open>
  Claim C7, amended. Every picked path, with its disk name cut off, is in the folder
  set, whether or not it exists or is a directory; and the picks are collected one
  after the other, each on its own: the folder set of a list of picks is the folder
  set of its first part followed by that of the rest. In a file system with plain
  names, for picked paths without wildcard characters and a recursion depth above the
  depth of the tree, the collection runs to its end whatever the picked paths name.
\<close>

theorem every_root_is_kept:
  "(selectFolders depth fnm root paths sfChk = Some xs \<longrightarrow>
      set (map stripDiskName paths) \<subseteq> set xs)
   \<and> selectFolders depth fnm root (ps @ qs) sfChk =
       (case selectFolders depth fnm root ps sfChk of
          None \<Rightarrow> None
        | Some a \<Rightarrow> (case selectFolders depth fnm root qs sfChk of
                      None \<Rightarrow> None
                    | Some b \<Rightarrow> Some (a @ b)))
   \<and> (wf_plain root \<and> (\<forall>p \<in> set paths. \<not> has_magic (stripDiskName p)) \<and> dheight root < depth
        \<longrightarrow> (\<exists>ys. selectFolders depth fnm root paths sfChk = Some ys))"
  using selectFolders_roots selectFolders_append selectFolders_returns by blast

theorem every_root_is_kept_witness:
  "wf_plain fs0 \<and> \<not> has_magic (stripDiskName ''/nowhere'') \<and> \<not> has_magic (stripDiskName ''/tmp/a'')
   \<and> dheight fs0 < 1000
   \<and> selectFolders 1000 fnmatch fs0 [''/nowhere'', ''/tmp/a''] True
     = Some [''/nowhere'', ''/tmp/a'', ''/tmp/a/sub'', ''/tmp/a/sub/deep'']
   \<and> set (map stripDiskName [''/nowhere'', ''/tmp/a''])
       \<subseteq> set [''/nowhere'', ''/tmp/a'', ''/tmp/a/sub'', ''/tmp/a/sub/deep'']"
proof -
  have h0: "wf_plain fs0 \<and> \<not> has_magic (stripDiskName ''/nowhere'')
      \<and> \<not> has_magic (stripDiskName ''/tmp/a'') \<and> dheight fs0 < 1000"
    by code_simp
  have h: "selectFolders 1000 fnmatch fs0 [''/nowhere'', ''/tmp/a''] True
     = Some [''/nowhere'', ''/tmp/a'', ''/tmp/a/sub'', ''/tmp/a/sub/deep'']"
    by code_simp
  show ?thesis
    using every_root_is_kept [of 1000 fnmatch fs0 "[''/nowhere'', ''/tmp/a'']" True
        "[''/nowhere'', ''/tmp/a'', ''/tmp/a/sub'', ''/tmp/a/sub/deep'']"] h h0
    by blast
qed

section \<open>Hidden entries\<close>

lemma lookup_wf: "wf_fs nd \<Longrightarrow> lookup nd cs = Some nd' \<Longrightarrow> wf_fs nd'"
proof (induction nd cs rule: lookup.induct)
  case (1 nd)
  then show ?case by simp
next
  case (2 c cs)
  then show ?case by simp
next
  case (3 es c cs)
  from "3.prems"(2) obtain nd where nd: "map_of es c = Some nd" "lookup nd cs = Some nd'"
    by (auto split: option.splits)
  then have "(c, nd) \<in> set es" by (simp add: map_of_SomeD)
  with "3.prems"(1) have "wf_fs nd" by fastforce
  from "3.IH"[OF nd(1) this nd(2)] show ?case .
qed

lemma iterdir_names:
  assumes "wf_fs root" "name \<in> set (iterdir root d dironly)"
  shows "CHR ''/'' \<notin> set name"
proof (cases "if d = [] then Some root else resolve root d")
  case None
  with assms(2) show ?thesis by (simp add: iterdir_def)
next
  case (Some nd)
  show ?thesis
  proof (cases nd)
    case File
    with Some assms(2) show ?thesis by (simp add: iterdir_def)
  next
    case (Dir es)
    with Some assms(2) have nm: "name \<in> fst ` set es"
      by (auto simp: iterdir_def)
    have "wf_fs (Dir es)"
    proof (cases "d = []")
      case True
      with Some Dir assms(1) show ?thesis by simp
    next
      case False
      with Some Dir have "lookup root (filter (\<lambda>w. w \<noteq> []) (split_chr CHR ''/'' d)) = Some (Dir es)"
        by (simp add: resolve_def)
      with assms(1) show ?thesis by (rule lookup_wf)
    qed
    with nm show ?thesis by auto
  qed
qed

lemma glob1_names:
  assumes "wf_fs root" "\<not> ishidden pat" "name \<in> set (glob1 fnm root d pat dironly)"
  shows "CHR ''/'' \<notin> set name \<and> \<not> ishidden name"
proof -
  from assms(2,3) have "name \<in> set (iterdir root d dironly)" "\<not> ishidden name"
    by (auto simp: glob1_def Let_def)
  with assms(1) show ?thesis using iterdir_names by blast
qed

lemma iglob_basename:
  assumes "wf_fs root" "\<not> ishidden (basename pathname)" "x \<in> set (iglob fnm root pathname dironly)"
  shows "\<not> ishidden (basename x)"
proof -
  let ?d = "fst (split_path pathname)" and ?b = "basename pathname"
  have nb: "CHR ''/'' \<notin> set ?b" by (rule set_basename)
  have g0: "name \<in> set (glob0 root d ?b) \<Longrightarrow> name = ?b" for name d
    by (auto simp: glob0_def split: if_splits)
  have g1: "name \<in> set (glob1 fnm root d ?b dironly) \<Longrightarrow> basename name = name \<and> \<not> ishidden name" for name d
    using glob1_names[OF assms(1,2)] basename_no_slash by blast
  consider (lit) "\<not> has_magic pathname"
    | (cur) "has_magic pathname" "?d = []"
    | (dir) "has_magic pathname" "?d \<noteq> []"
    by blast
  then show ?thesis
  proof cases
    case lit
    with assms(3) have "x = pathname"
      by (subst (asm) iglob.simps) (auto split: if_splits)
    with assms(2) show ?thesis by simp
  next
    case cur
    with assms(3) have "x \<in> set (glob1 fnm root ?d ?b dironly)"
      by (subst (asm) iglob.simps) (simp add: snd_split_path)
    with g1 show ?thesis by metis
  next
    case dir
    let ?dirs = "if ?d \<noteq> pathname \<and> has_magic ?d then iglob fnm root ?d True else [?d]"
    have eq: "iglob fnm root pathname dironly = concat (map (\<lambda>d. map (join_path d)
        (if has_magic ?b then glob1 fnm root d ?b dironly else glob0 root d ?b)) ?dirs)"
      using dir by (subst iglob.simps) (simp add: snd_split_path)
    from assms(3) have "x \<in> set (concat (map (\<lambda>d. map (join_path d)
        (if has_magic ?b then glob1 fnm root d ?b dironly else glob0 root d ?b)) ?dirs))"
      unfolding eq .
    then obtain d name where x: "x = join_path d name"
      "name \<in> set (if has_magic ?b then glob1 fnm root d ?b dironly else glob0 root d ?b)"
      by auto
    have "basename name = name \<and> \<not> ishidden name"
    proof (cases "has_magic ?b")
      case True
      with x(2) g1 show ?thesis by simp
    next
      case False
      with x(2) g0 have "name = ?b" by simp
      with nb assms(2) show ?thesis by (simp add: basename_no_slash)
    qed
    with x(1) show ?thesis by (simp add: basename_join_path)
  qed
qed

lemma glob_star_visible:
  assumes "wf_fs root" "x \<in> set (glob fnm root (join_path dp ''*''))"
  shows "\<not> ishidden (basename x)"
proof -
  have "basename (join_path dp ''*'') = basename ''*''"
    by (rule basename_join_path)
  also have "\<dots> = ''*''"
    by (simp add: basename_def)
  finally have "\<not> ishidden (basename (join_path dp ''*''))"
    by (simp add: ishidden_def)
  from iglob_basename[OF assms(1) this] assms(2) show ?thesis
    by (simp add: glob_def)
qed

lemma addFolders_member:
  assumes "addFolders (Suc depth) fnm root dp = Some xs" "x \<in> set xs"
  shows "\<exists>fp \<in> set (glob fnm root (join_path dp ''*'')). isdir root fp \<and>
           (\<exists>ys. addFolders depth fnm root fp = Some ys \<and> set ys \<subseteq> set xs \<and> fp \<in> set xs \<and> (x = fp \<or> x \<in> set ys))"
proof -
  let ?f = "\<lambda>fp. if isdir root fp then map_option ((#) fp) (addFolders depth fnm root fp) else Some []"
  from assms(1) obtain yss where y: "those (map ?f (glob fnm root (join_path dp ''*''))) = Some yss"
      "xs = concat yss"
    by auto
  from those_map_member[OF y(1)] assms(2) y(2) obtain fp zs where
      fp: "fp \<in> set (glob fnm root (join_path dp ''*''))" "?f fp = Some zs" "x \<in> set zs"
    by blast
  from those_map_Some[OF y(1) fp(1)] fp(2) y(2) have sub: "set zs \<subseteq> set xs" by auto
  from fp(2,3) have d: "isdir root fp" by (auto split: if_splits)
  with fp(2) obtain ys where ys: "addFolders depth fnm root fp = Some ys" "zs = fp # ys" by auto
  with sub fp(3) d fp(1) show ?thesis by auto
qed

lemma addFolders_visible:
  assumes "wf_fs root"
  shows "addFolders depth fnm root dp = Some xs \<Longrightarrow> x \<in> set xs \<Longrightarrow>
     \<not> ishidden (basename x) \<and> isdir root x \<and>
     (x \<in> set (glob fnm root (join_path dp ''*'')) \<or> (\<exists>y \<in> set xs. x \<in> set (glob fnm root (join_path y ''*''))))"
proof (induction depth arbitrary: dp xs)
  case 0
  then show ?case by simp
next
  case (Suc depth)
  from addFolders_member[OF Suc.prems] obtain fp ys where
      fp: "fp \<in> set (glob fnm root (join_path dp ''*''))" "isdir root fp"
        "addFolders depth fnm root fp = Some ys" "set ys \<subseteq> set xs" "fp \<in> set xs" "x = fp \<or> x \<in> set ys"
    by blast
  show ?case
  proof (cases "x = fp")
    case True
    with fp(1,2) glob_star_visible[OF assms] show ?thesis by blast
  next
    case False
    with fp(6) have "x \<in> set ys" by simp
    from Suc.IH[OF fp(3) this] fp(4,5) show ?thesis by blast
  qed
qed

lemma fileMatch_visible:
  assumes "wf_fs root" "\<not> ishidden (basename fileForm)" "x \<in> set (fileMatch fnm root sel fileForm)"
  shows "\<not> ishidden (basename x)"
proof -
  from assms(3) obtain dp where "x \<in> set (iglob fnm root (join_path dp fileForm) False)"
    by (auto simp: fileMatch_def glob_def)
  moreover have "\<not> ishidden (basename (join_path dp fileForm))"
    using assms(2) by (simp add: basename_join_path)
  ultimately show ?thesis using iglob_basename[OF assms(1)] by blast
qed


text \<open>
  A pattern that itself starts with a dot does match hidden entries: this is the
  rule of \<open>glob\<close>, and the reason for the condition on the pattern below.
\<close>

lemma hidden_pattern_matches_hidden_entries:
  "fileMatch fnmatch fs0 [''/tmp/a''] ''.*'' = [''/tmp/a/.hid.txt'', ''/tmp/a/.git'']"
  by code_simp

text \<open>
  Claim C10. In a file system whose names are well formed, every folder that
  \<open>addFolders\<close> appends has a base name that does not begin with a dot, and it was
  found by listing either the folder \<open>addFolders\<close> was called with or a folder that was
  appended itself: a hidden folder is neither appended nor searched. And for a
  pattern whose last component does not begin with a dot, such as \<open>*.*\<close>, no
  matched path has a base name that begins with a dot. Both hold for every matcher.
  The list of \<open>addFolders\<close> is there whenever the names are plain, the folder path
  has no wildcard character and the recursion depth allowed exceeds the depth of the
  tree.
\<close>

theorem hidden_entries_are_skipped:
  assumes "wf_fs root"
  shows "(addFolders depth fnm root dp = Some xs \<longrightarrow>
            (\<forall>x \<in> set xs. \<not> ishidden (basename x) \<and> isdir root x \<and>
               (x \<in> set (glob fnm root (join_path dp ''*''))
                \<or> (\<exists>y \<in> set xs. x \<in> set (glob fnm root (join_path y ''*''))))))
       \<and> (\<not> ishidden (basename fileForm) \<longrightarrow>
            (\<forall>x \<in> set (fileMatch fnm root selectedFolders fileForm). \<not> ishidden (basename x)))
       \<and> (wf_plain root \<and> \<not> has_magic dp \<and> dheight root < depth \<longrightarrow>
            (\<exists>ys. addFolders depth fnm root dp = Some ys))"
  using addFolders_visible[OF assms] fileMatch_visible[OF assms] addFolders_returns_root
  by blast

theorem hidden_entries_are_skipped_witness:
  "wf_fs fs0 \<and> wf_plain fs0 \<and> \<not> has_magic ''/tmp'' \<and> dheight fs0 < 1000
   \<and> addFolders 1000 fnmatch fs0 ''/tmp'' = Some [''/tmp/a'', ''/tmp/a/sub'', ''/tmp/a/sub/deep'', ''/tmp/b'']
   \<and> list_all (\<lambda>x. \<not> ishidden (basename x))
         [''/tmp/a'', ''/tmp/a/sub'', ''/tmp/a/sub/deep'', ''/tmp/b'']
   \<and> \<not> ishidden (basename ''*.*'')
   \<and> fileMatch fnmatch fs0 [''/tmp/a'', ''/tmp/b''] ''*.*''
       = [''/tmp/a/x.txt'', ''/tmp/a/y.txt'', ''/tmp/b/z.txt'']
   \<and> list_all (\<lambda>x. \<not> ishidden (basename x))
         (fileMatch fnmatch fs0 [''/tmp/a'', ''/tmp/b''] ''*.*'')"
proof -
  have h4: "fileMatch fnmatch fs0 [''/tmp/a'', ''/tmp/b''] ''*.*''
       = [''/tmp/a/x.txt'', ''/tmp/a/y.txt'', ''/tmp/b/z.txt'']"
    by code_simp
  have h1: "wf_fs fs0"
    by code_simp
  have h5: "wf_plain fs0 \<and> \<not> has_magic ''/tmp'' \<and> dheight fs0 < 1000"
    by code_simp
  have h2: "addFolders 1000 fnmatch fs0 ''/tmp''
      = Some [''/tmp/a'', ''/tmp/a/sub'', ''/tmp/a/sub/deep'', ''/tmp/b'']"
    by code_simp
  have h3: "\<not> ishidden (basename ''*.*'')"
    by code_simp
  show ?thesis
    using hidden_entries_are_skipped [OF h1, of 1000 fnmatch "''/tmp''"
        "[''/tmp/a'', ''/tmp/a/sub'', ''/tmp/a/sub/deep'', ''/tmp/b'']" "''*.*''"
        "[''/tmp/a'', ''/tmp/b'']"] h1 h2 h3 h4 h5
    unfolding list_all_iff by blast
qed

section \<open>The log of the executor\<close>

lemma renameLoop_log:
  "renameLoop ren clock nFL i fps fs msg = Inr (fs', msg')
     \<Longrightarrow> msg' = msg @ logRecords clock nFL i fps"
proof (induction fps arbitrary: i fs msg)
  case Nil
  then show ?case by simp
next
  case (Cons fp fps)
  from Cons.prems obtain fs1 where
      "renameLoop ren clock nFL (Suc i) fps fs1 (msg @ logRecord (clock i) fp (nFL ! i)) = Inr (fs', msg')"
    by (auto split: if_splits option.splits)
  from Cons.IH[OF this] show ?case by simp
qed

text \<open>
  Claim C8, as it stands, fails: the records are gathered in \<open>msg4log\<close> and written
  in one call after the loop, and nothing catches the exception of a failing
  \<open>rename\<close>. When the second renaming fails, the first file has been renamed and
  the log holds no record of it.
\<close>

theorem log_after_failure_counterexample:
  "runRename flat_rename clock0 [''/a'', ''/missing''] [''/b'', ''/c'']
      \<lparr>files = [''/a''], logFile = Some logHeader\<rparr>
   = (Some OSError, \<lparr>files = [''/b''], logFile = Some logHeader\<rparr>)"
  by code_simp

text \<open>
  Claim C8, amended. When every renaming of the pass succeeds, the log file is what
  it was, followed by one record for each pair in plan order (a file that did not
  exist is created with only these records); when a renaming fails, the log file is
  left as it was. At start-up a missing log file is created with the header and an
  existing one is left alone, and writing to an existing log file appends.
\<close>

theorem log_written_after_the_loop:
  "(case runRename ren clock fileList nFL w of
      (None, w') \<Rightarrow> logFile w' = writeFile (logFile w) (logRecords clock nFL 0 fileList)
    | (Some e, w') \<Rightarrow> logFile w' = logFile w)
   \<and> initLog None = Some logHeader
   \<and> initLog (Some old) = Some old
   \<and> writeFile (Some old) txt = Some (old @ txt)"
proof -
  have "case runRename ren clock fileList nFL w of
      (None, w') \<Rightarrow> logFile w' = writeFile (logFile w) (logRecords clock nFL 0 fileList)
    | (Some e, w') \<Rightarrow> logFile w' = logFile w"
  proof (cases "renameLoop ren clock nFL 0 fileList (files w) []")
    case (Inl a)
    then show ?thesis by (cases a) (simp add: runRename_def)
  next
    case (Inr b)
    obtain fs' msg' where b: "b = (fs', msg')" by (cases b)
    with Inr have "msg' = [] @ logRecords clock nFL 0 fileList"
      by (intro renameLoop_log) simp
    with Inr b show ?thesis by (simp add: runRename_def)
  qed
  then show ?thesis
    by (simp add: initLog_def writeFile_def)
qed

theorem log_written_after_the_loop_witness:
  "runRename flat_rename clock0 [''/a'', ''/d''] [''/b'', ''/c'']
      \<lparr>files = [''/a'', ''/d''], logFile = Some logHeader\<rparr>
   = (None, \<lparr>files = [''/c'', ''/b''],
             logFile = Some (logHeader @ ''2019_09_10_16_21_56, /a, /b'' @ [CHR 0x0A, CHR 0x0A]
                               @ ''2019_09_10_16_21_56, /d, /c'' @ [CHR 0x0A, CHR 0x0A])\<rparr>)
   \<and> writeFile (Some logHeader) (logRecords clock0 [''/b'', ''/c''] 0 [''/a'', ''/d''])
       = Some (logHeader @ ''2019_09_10_16_21_56, /a, /b'' @ [CHR 0x0A, CHR 0x0A]
                 @ ''2019_09_10_16_21_56, /d, /c'' @ [CHR 0x0A, CHR 0x0A])"
proof -
  have h: "runRename flat_rename clock0 [''/a'', ''/d''] [''/b'', ''/c'']
      \<lparr>files = [''/a'', ''/d''], logFile = Some logHeader\<rparr>
   = (None, \<lparr>files = [''/c'', ''/b''],
             logFile = Some (logHeader @ ''2019_09_10_16_21_56, /a, /b'' @ [CHR 0x0A, CHR 0x0A]
                               @ ''2019_09_10_16_21_56, /d, /c'' @ [CHR 0x0A, CHR 0x0A])\<rparr>)"
    by code_simp
  show ?thesis
    using log_written_after_the_loop [where ren = flat_rename and clock = clock0
        and fileList = "[''/a'', ''/d'']" and nFL = "[''/b'', ''/c'']"
        and w = "\<lparr>files = [''/a'', ''/d''], logFile = Some logHeader\<rparr>"] h
    by simp
qed

end
